theory Spec2Isabelle
  imports Main
begin

section \<open>JavaScript strings\<close>

text \<open>
  A JavaScript string is modelled as a \<^typ>\<open>string\<close>: the model covers documents and tag
  literals whose code units are below 256, the Latin-1 range. On these code units
  \<open>String.prototype.toLowerCase\<close> maps \<open>A\<close>-\<open>Z\<close> and the capital letters \<open>0xC0\<close>-\<open>0xDE\<close>
  (without the multiplication sign \<open>0xD7\<close>) to the code unit 32 above, and nothing else.
  \<open>toUpperCase_char\<close> is the simple upper-case mapping that the \<open>i\<close> flag uses: \<open>a\<close>-\<open>z\<close>
  and the small letters \<open>0xE0\<close>-\<open>0xFE\<close> (without the division sign \<open>0xF7\<close>) go to the
  code unit 32 below. The sharp s \<open>0xDF\<close> has no single upper-case code unit and is kept, and
  the upper-case forms of \<open>0xB5\<close> and \<open>0xFF\<close> lie above 255, where no other code unit of the
  model goes, so they are kept as well.
\<close>

definition toLowerCase_char :: "char \<Rightarrow> char" where
  "toLowerCase_char c =
     (if (65::nat) \<le> of_char c \<and> of_char c \<le> (90::nat) \<or>
         (192::nat) \<le> of_char c \<and> of_char c \<le> (222::nat) \<and> of_char c \<noteq> (215::nat)
      then char_of (of_char c + (32::nat)) else c)"

definition toUpperCase_char :: "char \<Rightarrow> char" where
  "toUpperCase_char c =
     (if (97::nat) \<le> of_char c \<and> of_char c \<le> (122::nat) \<or>
         (224::nat) \<le> of_char c \<and> of_char c \<le> (254::nat) \<and> of_char c \<noteq> (247::nat)
      then char_of (of_char c - (32::nat)) else c)"

definition toLowerCase :: "string \<Rightarrow> string" where
  "toLowerCase s = map toLowerCase_char s"

section \<open>Regular expressions of the scanner\<close>

text \<open>
  The syntax tree that \<open>new RegExp\<close> builds from the pattern strings of \<open>parser.ts\<close>.
  Only the constructs that occur in those patterns are present: pattern characters, \<open>.\<close>,
  character classes, \<open>^\<close>, sequence, alternation, capturing groups, and the quantifiers
  \<open>*\<close>, \<open>*?\<close> and \<open>+\<close>.
\<close>

datatype class_atom = ClassChar char | ClassSpace | ClassNonSpace

datatype regex =
    REmpty
  | RLit char
  | RDot
  | RClass bool "class_atom list"
  | RLineStart
  | RSeq regex regex
  | RAlt regex regex
  | RGroup nat regex
  | RStar bool regex
  | RPlus regex

record flags =
  ignoreCase :: bool
  multiline :: bool

text \<open>
  A matcher state is the input split at the current end index (the consumed part reversed,
  so that its head is the character before the end index) together with the captures.
\<close>

type_synonym mstate = "string \<times> string \<times> string option list"

definition isLineTerminator :: "char \<Rightarrow> bool" where
  "isLineTerminator c = (c = CHR 0x0A \<or> c = CHR 0x0D)"

definition isWhiteSpace :: "char \<Rightarrow> bool" where
  "isWhiteSpace c = (c \<in> set [CHR 0x09, CHR 0x0A, CHR 0x0B, CHR 0x0C, CHR 0x0D, CHR 0x20, CHR 0xA0])"

definition canonicalize :: "flags \<Rightarrow> char \<Rightarrow> char" where
  "canonicalize f c = (if ignoreCase f then toUpperCase_char c else c)"

fun class_atom_matches :: "flags \<Rightarrow> char \<Rightarrow> class_atom \<Rightarrow> bool" where
  "class_atom_matches f c (ClassChar d) = (canonicalize f c = canonicalize f d)"
| "class_atom_matches f c ClassSpace = isWhiteSpace c"
| "class_atom_matches f c ClassNonSpace = (\<not> isWhiteSpace c)"

fun class_matches :: "flags \<Rightarrow> char \<Rightarrow> class_atom list \<Rightarrow> bool" where
  "class_matches f c [] = False"
| "class_matches f c (a # as) = (class_atom_matches f c a \<or> class_matches f c as)"

fun group_indices :: "regex \<Rightarrow> nat list" where
  "group_indices (RSeq a b) = group_indices a @ group_indices b"
| "group_indices (RAlt a b) = group_indices a @ group_indices b"
| "group_indices (RGroup k r) = k # group_indices r"
| "group_indices (RStar g r) = group_indices r"
| "group_indices (RPlus r) = group_indices r"
| "group_indices _ = []"

fun clear_captures :: "nat list \<Rightarrow> string option list \<Rightarrow> string option list" where
  "clear_captures [] caps = caps"
| "clear_captures (k # ks) caps = clear_captures ks (caps[k := None])"

fun rsize :: "regex \<Rightarrow> nat" where
  "rsize (RSeq a b) = Suc (rsize a + rsize b)"
| "rsize (RAlt a b) = Suc (rsize a + rsize b)"
| "rsize (RGroup k r) = Suc (rsize r)"
| "rsize (RStar g r) = Suc (rsize r)"
| "rsize (RPlus r) = Suc (Suc (rsize r))"
| "rsize _ = 0"

fun accept_char :: "mstate \<Rightarrow> (char \<Rightarrow> bool) \<Rightarrow> mstate list" where
  "accept_char (before, [], caps) ok = []"
| "accept_char (before, c # cs, caps) ok = (if ok c then [(c # before, cs, caps)] else [])"

fun set_capture :: "nat \<Rightarrow> mstate \<Rightarrow> mstate \<Rightarrow> mstate" where
  "set_capture k (before, cs, caps) (before', cs', caps') =
     (before', cs', caps'[k := Some (take (length cs - length cs') cs)])"

text \<open>
  The order in which a quantifier tries its two choices, one more iteration (\<open>iter\<close>) or
  the rest of the pattern from the state \<open>x\<close>: a greedy one iterates first, a lazy one last.
\<close>

definition star_order :: "bool \<Rightarrow> mstate \<Rightarrow> mstate list \<Rightarrow> mstate list" where
  "star_order greedy x iter = (if greedy then iter @ [x] else x # iter)"

text \<open>
  The backtracking matcher of the ECMAScript specification, with the continuation replaced
  by the list of all end states in the order in which backtracking tries them: the match that
  \<open>exec\<close> reports is the head of the list. \<open>RPlus\<close> is RepeatMatcher with \<open>min = 1\<close>,
  \<open>RStar\<close> is RepeatMatcher with \<open>min = 0\<close>, where an iteration that consumes nothing
  is rejected; every iteration first resets the captures of the groups inside the atom.
\<close>

function matcher :: "flags \<Rightarrow> regex \<Rightarrow> mstate \<Rightarrow> mstate list" where
  "matcher f REmpty x = [x]"
| "matcher f (RLit c) x = accept_char x (\<lambda>d. canonicalize f d = canonicalize f c)"
| "matcher f RDot x = accept_char x (\<lambda>d. \<not> isLineTerminator d)"
| "matcher f (RClass neg atoms) x =
     accept_char x (\<lambda>d. class_matches f d atoms \<noteq> neg)"
| "matcher f RLineStart x =
     (case fst x of [] \<Rightarrow> [x]
      | c # _ \<Rightarrow> if multiline f \<and> isLineTerminator c then [x] else [])"
| "matcher f (RSeq a b) x = concat (map (matcher f b) (matcher f a x))"
| "matcher f (RAlt a b) x = matcher f a x @ matcher f b x"
| "matcher f (RGroup k r) x = map (set_capture k x) (matcher f r x)"
| "matcher f (RPlus r) x =
     concat (map (matcher f (RStar True r))
       (matcher f r (fst x, fst (snd x), clear_captures (group_indices r) (snd (snd x)))))"
| "matcher f (RStar greedy r) x =
     star_order greedy x
       (concat (map (\<lambda>y. if length (fst (snd y)) < length (fst (snd x))
                          then matcher f (RStar greedy r) y else [])
          (matcher f r (fst x, fst (snd x), clear_captures (group_indices r) (snd (snd x))))))"
  by pat_completeness auto
termination
  by (relation "measures [\<lambda>(f, r, x). rsize r, \<lambda>(f, r, x). length (fst (snd x))]") auto

declare matcher.simps(10) [simp del]


section \<open>\<open>RegExp.prototype.exec\<close>\<close>

text \<open>
  The result of a successful \<open>exec\<close>: \<open>index\<close> is \<open>match.index\<close>, \<open>matched\<close> is
  \<open>match[0]\<close>, and \<open>group m k\<close> is \<open>match[k]\<close> for \<open>k \<ge> 1\<close> (\<open>None\<close> is \<open>undefined\<close>).
\<close>

record regexp_match =
  index :: nat
  matched :: string
  groups :: "string option list"

definition group :: "regexp_match \<Rightarrow> nat \<Rightarrow> string option" where
  "group m k = (if k < length (groups m) then groups m ! k else None)"

fun count_groups :: "regex \<Rightarrow> nat" where
  "count_groups (RSeq a b) = count_groups a + count_groups b"
| "count_groups (RAlt a b) = count_groups a + count_groups b"
| "count_groups (RGroup k r) = Suc (count_groups r)"
| "count_groups (RStar g r) = count_groups r"
| "count_groups (RPlus r) = count_groups r"
| "count_groups _ = 0"

definition start_state :: "regex \<Rightarrow> string \<Rightarrow> nat \<Rightarrow> mstate" where
  "start_state r text i = (rev (take i text), drop i text, replicate (Suc (count_groups r)) None)"

text \<open>
  \<open>exec\<close> on a global regular expression whose \<open>lastIndex\<close> is \<open>i\<close>: the match is tried
  at \<open>i\<close>, \<open>i + 1\<close>, ... up to the length of the text. The new \<open>lastIndex\<close> is the end of
  the match, \<open>index m + length (matched m)\<close>, and \<open>0\<close> when there is no match.
\<close>

function regexp_exec :: "flags \<Rightarrow> regex \<Rightarrow> string \<Rightarrow> nat \<Rightarrow> regexp_match option" where
  "regexp_exec f r text i =
     (if length text < i then None
      else case matcher f r (start_state r text i) of
             [] \<Rightarrow> regexp_exec f r text (Suc i)
           | y # _ \<Rightarrow>
               Some \<lparr>index = i,
                     matched = take (length (drop i text) - length (fst (snd y))) (drop i text),
                     groups = snd (snd y)\<rparr>)"
  by pat_completeness auto
termination
  by (relation "measure (\<lambda>(f, r, text, i). Suc (length text) - i)") auto

declare regexp_exec.simps [simp del]

section \<open>The editor\<close>

text \<open>
  \<open>vscode.Position\<close>, \<open>vscode.Range\<close> and \<open>document.positionAt\<close> belong to the host
  editor. \<open>positionAt\<close> clamps the offset to the document and counts line feeds; a
  \<open>DecorationOptions\<close> of the scanner carries a range and nothing else. A decoration type
  is identified with the render options it was created from.
\<close>

record Position =
  line :: nat
  character :: nat

record Range =
  range_start :: Position
  range_end :: Position

definition positionAt :: "string \<Rightarrow> nat \<Rightarrow> Position" where
  "positionAt text offset =
     \<lparr>line = length (filter (\<lambda>c. c = CHR 0x0A) (take offset text)),
      character = length (takeWhile (\<lambda>c. c \<noteq> CHR 0x0A) (rev (take offset text)))\<rparr>"

record DecorationRenderOptions =
  color :: string
  textDecoration :: "string option"

section \<open>The parser\<close>

record CommentTag =
  tag :: string
  escapedTag :: string
  decoration :: DecorationRenderOptions
  ranges :: "Range list"

record TagItem =
  item_tag :: string
  item_color :: string
  item_strikethrough :: bool

record Contributions =
  multilineComments :: bool
  useJSDocStyle :: bool
  contributed_tags :: "TagItem list"

record Parser =
  tags :: "CommentTag list"
  expression :: regex
  delimiter :: string
  highlightMultilineComments :: bool
  ignoreFirstLine :: bool
  supportedLanguage :: bool
  contributions :: Contributions

subsection \<open>\<open>setTags\<close> and the constructor\<close>

definition escape_metacharacters :: "string \<Rightarrow> string" where
  "escape_metacharacters s =
     concat (map (\<lambda>c. if c \<in> set ''()[{*+.$^|?'' \<or> c = CHR 0x5C then [CHR 0x5C, c] else [c]) s)"

definition escape_slashes :: "string \<Rightarrow> string" where
  "escape_slashes s = concat (map (\<lambda>c. if c = CHR ''/'' then [CHR 0x5C, c] else [c]) s)"

definition make_tag :: "TagItem \<Rightarrow> CommentTag" where
  "make_tag item =
     \<lparr>tag = item_tag item,
      escapedTag = escape_slashes (escape_metacharacters (item_tag item)),
      decoration = \<lparr>color = item_color item,
                    textDecoration = (if item_strikethrough item then Some ''line-through'' else None)\<rparr>,
      ranges = []\<rparr>"

fun setTags_loop :: "TagItem list \<Rightarrow> CommentTag list \<Rightarrow> CommentTag list" where
  "setTags_loop [] ts = ts"
| "setTags_loop (item # items) ts = setTags_loop items (ts @ [make_tag item])"

definition setTags :: "Parser \<Rightarrow> Parser" where
  "setTags p = p\<lparr>tags := setTags_loop (contributed_tags (contributions p)) (tags p)\<rparr>"

definition new_Parser :: "Contributions \<Rightarrow> Parser" where
  "new_Parser cfg =
     setTags \<lparr>tags = [], expression = REmpty, delimiter = [],
              highlightMultilineComments = False, ignoreFirstLine = False,
              supportedLanguage = True, contributions = cfg\<rparr>"


subsection \<open>\<open>setDelimiter\<close>\<close>

definition slash_languages :: "string list" where
  "slash_languages =
     [''al'', ''c'', ''cpp'', ''csharp'', ''css'', ''dart'', ''fsharp'', ''go'', ''haxe'',
      ''java'', ''javascript'', ''javascriptreact'', ''jsonc'', ''kotlin'', ''less'',
      ''pascal'', ''objectpascal'', ''php'', ''rust'', ''scala'', ''scss'', ''swift'',
      ''typescript'', ''typescriptreact'']"

definition hash_languages :: "string list" where
  "hash_languages =
     [''coffeescript'', ''dockerfile'', ''elixir'', ''graphql'', ''julia'', ''makefile'',
      ''perl'', ''perl6'', ''powershell'', ''r'', ''ruby'', ''shellscript'', ''yaml'']"

definition dash_languages :: "string list" where
  "dash_languages = [''ada'', ''haskell'', ''plsql'', ''sql'', ''lua'']"

definition percent_languages :: "string list" where
  "percent_languages = [''erlang'', ''latex'', ''matlab'']"

definition semicolon_languages :: "string list" where
  "semicolon_languages = [''clojure'', ''racket'', ''lisp'']"

definition setDelimiter :: "string \<Rightarrow> Parser \<Rightarrow> Parser" where
  "setDelimiter languageCode p0 =
     (let p = p0\<lparr>supportedLanguage := True\<rparr> in
      if languageCode \<in> set slash_languages then
        p\<lparr>delimiter := ''//'',
          highlightMultilineComments := multilineComments (contributions p)\<rparr>
      else if languageCode \<in> set hash_languages then p\<lparr>delimiter := ''#''\<rparr>
      else if languageCode = ''python'' then p\<lparr>delimiter := ''#'', ignoreFirstLine := True\<rparr>
      else if languageCode \<in> set dash_languages then p\<lparr>delimiter := ''--''\<rparr>
      else if languageCode = ''vb'' then p\<lparr>delimiter := [CHR 0x27]\<rparr>
      else if languageCode \<in> set percent_languages then p\<lparr>delimiter := ''%''\<rparr>
      else if languageCode \<in> set semicolon_languages then p\<lparr>delimiter := '';''\<rparr>
      else if languageCode = ''terraform'' then
        p\<lparr>delimiter := ''#'',
          highlightMultilineComments := multilineComments (contributions p)\<rparr>
      else p\<lparr>supportedLanguage := False\<rparr>)"

subsection \<open>The patterns\<close>

text \<open>
  \<open>literal s\<close> is the pattern that a string of pattern characters without metacharacters
  stands for. \<open>pattern_characters\<close> reads a pattern source made of pattern characters and
  identity escapes (a backslash and the character it protects), which is what the two
  \<open>replace\<close> calls of \<open>setTags\<close> and the one of \<open>SetRegex\<close> produce.
\<close>

fun literal :: "string \<Rightarrow> regex" where
  "literal [] = REmpty"
| "literal (c # cs) = RSeq (RLit c) (literal cs)"

fun pattern_characters :: "string \<Rightarrow> regex" where
  "pattern_characters [] = REmpty"
| "pattern_characters [c] = RSeq (RLit c) REmpty"
| "pattern_characters (c # d # cs) =
     (if c = CHR 0x5C then RSeq (RLit d) (pattern_characters cs)
      else RSeq (RLit c) (pattern_characters (d # cs)))"

text \<open>\<open>characters.join("|")\<close> between parentheses: the alternatives in registration order.\<close>

fun alternatives :: "regex list \<Rightarrow> regex" where
  "alternatives [] = REmpty"
| "alternatives [r] = r"
| "alternatives (r # rs) = RAlt r (alternatives rs)"

definition tag_alternatives :: "CommentTag list \<Rightarrow> regex" where
  "tag_alternatives ts = alternatives (map (\<lambda>t. pattern_characters (escapedTag t)) ts)"

definition blank_class :: regex where
  "blank_class = RClass False [ClassChar CHR '' '', ClassChar CHR 0x09]"

text \<open>\<open>(delimiter)+( |\t)*(tag|...|tag)+(.*)\<close>\<close>

definition single_line_expression :: "string \<Rightarrow> CommentTag list \<Rightarrow> regex" where
  "single_line_expression d ts =
     RSeq (RPlus (RGroup 1 (pattern_characters (escape_slashes d))))
       (RSeq (RStar True (RGroup 2 (RAlt (RLit CHR '' '') (RLit CHR 0x09))))
         (RSeq (RPlus (RGroup 3 (tag_alternatives ts)))
           (RGroup 4 (RStar True RDot))))"

definition SetRegex :: "string \<Rightarrow> Parser \<Rightarrow> Parser" where
  "SetRegex languageCode p0 =
     (let p = setDelimiter languageCode p0
      in p\<lparr>expression := single_line_expression (delimiter p) (tags p)\<rparr>)"

text \<open>
  The block patterns of \<open>FindMultilineComments\<close>:
  \<open>(^|[ \t])(\/\*\*)+([\s\S]*?)(\*\/)\<close> for doc blocks and
  \<open>(^|[ \t])(\/\*[^*])+([\s\S]*?)(\*\/)\<close> for plain blocks.
\<close>

definition block_expression :: "bool \<Rightarrow> regex" where
  "block_expression findJSDoc =
     RSeq (RGroup 1 (RAlt RLineStart blank_class))
       (RSeq (RPlus (RGroup 2
                (if findJSDoc then literal ''/**''
                 else RSeq (RLit CHR ''/'') (RSeq (RLit CHR ''*'') (RClass True [ClassChar CHR ''*''])))))
         (RSeq (RGroup 3 (RStar False (RClass False [ClassSpace, ClassNonSpace])))
           (RGroup 4 (literal ''*/''))))"

text \<open>
  The line patterns: \<open>(^)+([ \t]*\*[ \t]*)(tag|...)([ ]*|[:])+([^*/][^\r\n]*)\<close> for doc
  blocks and \<open>(^)+([ \t]*[ \t]*)(tag|...)([ ]*|[:])+([^*/][^\r\n]*)\<close> for plain blocks.
\<close>

definition comment_expression :: "bool \<Rightarrow> CommentTag list \<Rightarrow> regex" where
  "comment_expression findJSDoc ts =
     RSeq (RPlus (RGroup 1 RLineStart))
       (RSeq (RGroup 2
                (if findJSDoc
                 then RSeq (RStar True blank_class) (RSeq (RLit CHR ''*'') (RStar True blank_class))
                 else RSeq (RStar True blank_class) (RStar True blank_class)))
         (RSeq (RGroup 3 (tag_alternatives ts))
           (RSeq (RPlus (RGroup 4 (RAlt (RStar True (RClass False [ClassChar CHR '' '']))
                                      (RClass False [ClassChar CHR '':'']))))
             (RGroup 5 (RSeq (RClass True [ClassChar CHR ''*'', ClassChar CHR ''/''])
                          (RStar True (RClass True [ClassChar CHR 0x0D, ClassChar CHR 0x0A])))))))"

subsection \<open>Attributing a match to a tag\<close>

datatype error = TypeError

text \<open>
  \<open>this.tags.find(item => item.tag.toLowerCase() === s.toLowerCase())\<close> followed by
  \<open>matchTag.ranges.push(range)\<close>: the first tag with that literal gets the range, and
  nothing happens when there is none. Reading \<open>toLowerCase\<close> of \<open>undefined\<close> throws, which
  happens in the callback, so only when there is a tag to test.
\<close>

fun push_range :: "string \<Rightarrow> Range \<Rightarrow> CommentTag list \<Rightarrow> CommentTag list" where
  "push_range s r [] = []"
| "push_range s r (t # ts) =
     (if toLowerCase (tag t) = toLowerCase s then t\<lparr>ranges := ranges t @ [r]\<rparr> # ts
      else t # push_range s r ts)"

definition attribute :: "string option \<Rightarrow> Range \<Rightarrow> Parser \<Rightarrow> error + Parser" where
  "attribute s r p =
     (case s of
        None \<Rightarrow> if tags p = [] then Inr p else Inl TypeError
      | Some str \<Rightarrow> Inr (p\<lparr>tags := push_range str r (tags p)\<rparr>))"

subsection \<open>\<open>FindSingleLineComments\<close>\<close>

definition single_line_flags :: flags where
  "single_line_flags = \<lparr>ignoreCase = True, multiline = False\<rparr>"

definition single_line_match :: "string \<Rightarrow> regexp_match \<Rightarrow> Parser \<Rightarrow> error + Parser" where
  "single_line_match text m p =
     (let startPos = positionAt text (index m);
          endPos = positionAt text (index m + length (matched m));
          range = \<lparr>range_start = startPos, range_end = endPos\<rparr>
      in if ignoreFirstLine p \<and> line startPos = 0 \<and> character startPos = 0 then Inr p
         else attribute (group m 3) range p)"

partial_function (option) single_line_loop ::
  "regex \<Rightarrow> string \<Rightarrow> nat \<Rightarrow> Parser \<Rightarrow> (error + Parser) option" where
  "single_line_loop regEx text lastIndex p =
     (case regexp_exec single_line_flags regEx text lastIndex of
        None \<Rightarrow> Some (Inr p)
      | Some m \<Rightarrow>
          (case single_line_match text m p of
             Inl e \<Rightarrow> Some (Inl e)
           | Inr p' \<Rightarrow> single_line_loop regEx text (index m + length (matched m)) p'))"

declare single_line_loop.simps [code]

definition FindSingleLineComments :: "string \<Rightarrow> Parser \<Rightarrow> (error + Parser) option" where
  "FindSingleLineComments text p = single_line_loop (expression p) text 0 p"

subsection \<open>\<open>FindMultilineComments\<close>\<close>

definition block_flags :: flags where
  "block_flags = \<lparr>ignoreCase = False, multiline = True\<rparr>"

definition comment_flags :: flags where
  "comment_flags = \<lparr>ignoreCase = True, multiline = True\<rparr>"

definition comment_line_match ::
  "string \<Rightarrow> regexp_match \<Rightarrow> regexp_match \<Rightarrow> Parser \<Rightarrow> error + Parser" where
  "comment_line_match text m l p =
     (case group l 2 of
        None \<Rightarrow> Inl TypeError
      | Some prefix \<Rightarrow>
          (let startPos = positionAt text (index m + index l + length prefix);
               endPos = positionAt text (index m + index l + length (matched l));
               range = \<lparr>range_start = startPos, range_end = endPos\<rparr>
           in attribute (group l 3) range p))"

partial_function (option) comment_line_loop ::
  "regex \<Rightarrow> string \<Rightarrow> regexp_match \<Rightarrow> nat \<Rightarrow> Parser \<Rightarrow> (error + Parser) option" where
  "comment_line_loop commentRegEx text m lastIndex p =
     (case regexp_exec comment_flags commentRegEx (matched m) lastIndex of
        None \<Rightarrow> Some (Inr p)
      | Some l \<Rightarrow>
          (case comment_line_match text m l p of
             Inl e \<Rightarrow> Some (Inl e)
           | Inr p' \<Rightarrow> comment_line_loop commentRegEx text m (index l + length (matched l)) p'))"

declare comment_line_loop.simps [code]

partial_function (option) block_loop ::
  "regex \<Rightarrow> regex \<Rightarrow> string \<Rightarrow> nat \<Rightarrow> Parser \<Rightarrow> (error + Parser) option" where
  "block_loop regEx commentRegEx text lastIndex p =
     (case regexp_exec block_flags regEx text lastIndex of
        None \<Rightarrow> Some (Inr p)
      | Some m \<Rightarrow>
          (case comment_line_loop commentRegEx text m 0 p of
             None \<Rightarrow> None
           | Some (Inl e) \<Rightarrow> Some (Inl e)
           | Some (Inr p') \<Rightarrow> block_loop regEx commentRegEx text (index m + length (matched m)) p'))"

declare block_loop.simps [code]

definition FindMultilineComments :: "string \<Rightarrow> bool \<Rightarrow> Parser \<Rightarrow> (error + Parser) option" where
  "FindMultilineComments text findJSDoc p =
     (if \<not> highlightMultilineComments p then Some (Inr p)
      else block_loop (block_expression findJSDoc) (comment_expression findJSDoc (tags p)) text 0 p)"

subsection \<open>\<open>ApplyDecorations\<close>\<close>

text \<open>
  The calls \<open>activeEditor.setDecorations(tag.decoration, tag.ranges)\<close> are collected in
  the order in which they are made, each with the ranges that the tag holds at the call.
\<close>

fun ApplyDecorations_loop ::
  "CommentTag list \<Rightarrow> (DecorationRenderOptions \<times> Range list) list \<times> CommentTag list" where
  "ApplyDecorations_loop [] = ([], [])"
| "ApplyDecorations_loop (t # ts) =
     (case ApplyDecorations_loop ts of
        (calls, ts') \<Rightarrow> ((decoration t, ranges t) # calls, t\<lparr>ranges := []\<rparr> # ts'))"

definition ApplyDecorations ::
  "Parser \<Rightarrow> (DecorationRenderOptions \<times> Range list) list \<times> Parser" where
  "ApplyDecorations p =
     (case ApplyDecorations_loop (tags p) of (calls, ts) \<Rightarrow> (calls, p\<lparr>tags := ts\<rparr>))"


subsection \<open>Measures of a match\<close>

text \<open>
  A lower bound on what a pattern consumes, and the relation between a state and a later
  one: \<open>consumed x u y\<close> when the matcher went from \<open>x\<close> to \<open>y\<close> over the characters \<open>u\<close>.
\<close>

fun min_length :: "regex \<Rightarrow> nat" where
  "min_length (RLit c) = 1"
| "min_length RDot = 1"
| "min_length (RClass neg atoms) = 1"
| "min_length (RSeq a b) = min_length a + min_length b"
| "min_length (RAlt a b) = min (min_length a) (min_length b)"
| "min_length (RGroup k r) = min_length r"
| "min_length (RPlus r) = min_length r"
| "min_length _ = 0"

definition consumed :: "mstate \<Rightarrow> string \<Rightarrow> mstate \<Rightarrow> bool" where
  "consumed x u y \<longleftrightarrow>
     fst (snd x) = u @ fst (snd y) \<and> fst y = rev u @ fst x \<and>
     length (snd (snd y)) = length (snd (snd x))"

subsection \<open>Tags that cannot be mistaken\<close>

text \<open>
  The letters are the characters that case folding touches. \<open>unambiguous_tag ts t\<close> says
  that \<open>t\<close> is registered in \<open>ts\<close>, that no two literals of \<open>ts\<close> are equal up to case,
  that no literal contains a blank, and that none is a strict prefix of the literal of \<open>t\<close>
  up to case. \<open>escaped_tags\<close> is what \<open>setTags\<close> establishes.
\<close>

definition is_letter :: "char \<Rightarrow> bool" where
  "is_letter c \<longleftrightarrow>
     (65::nat) \<le> of_char c \<and> of_char c \<le> (90::nat) \<or>
     (97::nat) \<le> of_char c \<and> of_char c \<le> (122::nat) \<or>
     (192::nat) \<le> of_char c \<and> of_char c \<le> (254::nat) \<and>
       of_char c \<noteq> (215::nat) \<and> of_char c \<noteq> (223::nat) \<and> of_char c \<noteq> (247::nat)"

definition strict_prefix_ci :: "string \<Rightarrow> string \<Rightarrow> bool" where
  "strict_prefix_ci u v \<longleftrightarrow>
     length u < length v \<and> toLowerCase u = take (length u) (toLowerCase v)"

definition unambiguous_tag :: "CommentTag list \<Rightarrow> CommentTag \<Rightarrow> bool" where
  "unambiguous_tag ts t \<longleftrightarrow>
     t \<in> set ts \<and> distinct (map (\<lambda>u. toLowerCase (tag u)) ts) \<and>
     (\<forall>u \<in> set ts. CHR '' '' \<notin> set (tag u) \<and> CHR 0x09 \<notin> set (tag u) \<and>
        \<not> strict_prefix_ci (tag u) (tag t))"

definition escaped_tags :: "CommentTag list \<Rightarrow> bool" where
  "escaped_tags ts \<longleftrightarrow>
     (\<forall>t \<in> set ts. escapedTag t = escape_slashes (escape_metacharacters (tag t)))"

subsection \<open>Block comments in a document\<close>

text \<open>Whether the end marker of a block comment occurs inside a string.\<close>

fun contains_block_end :: "string \<Rightarrow> bool" where
  "contains_block_end (a # b # cs) = (a = CHR ''*'' \<and> b = CHR ''/'' \<or> contains_block_end (b # cs))"
| "contains_block_end _ = False"

subsection \<open>The classification table and a scan cycle\<close>

text \<open>The language identifiers that have a \<open>case\<close> label in \<open>setDelimiter\<close>.\<close>

definition classification_table :: "string list" where
  "classification_table =
     slash_languages @ hash_languages @ [''python''] @ dash_languages @ [''vb''] @
     percent_languages @ semicolon_languages @ [''terraform'']"

text \<open>
  One scan cycle: the single-line pass, the multi-line pass and the flush, in this order.
  An exception of a pass ends the cycle before the flush.
\<close>

definition scan_cycle ::
  "string \<Rightarrow> bool \<Rightarrow> Parser \<Rightarrow>
     (error + (DecorationRenderOptions \<times> Range list) list \<times> Parser) option" where
  "scan_cycle text findJSDoc p =
     (case FindSingleLineComments text p of
        None \<Rightarrow> None
      | Some (Inl e) \<Rightarrow> Some (Inl e)
      | Some (Inr p1) \<Rightarrow>
          (case FindMultilineComments text findJSDoc p1 of
             None \<Rightarrow> None
           | Some (Inl e) \<Rightarrow> Some (Inl e)
           | Some (Inr p2) \<Rightarrow> Some (Inr (ApplyDecorations p2))))"

text \<open>What a test reads off a parser: every tag literal with the ranges it holds.\<close>

definition tagged_ranges :: "Parser \<Rightarrow> (string \<times> Range list) list" where
  "tagged_ranges p = map (\<lambda>t. (tag t, ranges t)) (tags p)"

definition range_between :: "string \<Rightarrow> nat \<Rightarrow> nat \<Rightarrow> Range" where
  "range_between text i j = \<lparr>range_start = positionAt text i, range_end = positionAt text j\<rparr>"

subsection \<open>The matches of a pass\<close>

text \<open>
  \<open>matches_at\<close> says that the expression matches at an offset of the text, that is, that
  \<open>exec\<close> with this \<open>lastIndex\<close> returns a match with this \<open>index\<close>. \<open>matches_from\<close> lists
  the matches that \<open>while (match = regEx.exec(text))\<close> goes through, starting with the given
  \<open>lastIndex\<close>; the list ends with a match that does not move \<open>lastIndex\<close> forward, on
  which the loop of the source would not end.
\<close>

definition matches_at :: "flags \<Rightarrow> regex \<Rightarrow> string \<Rightarrow> nat \<Rightarrow> bool" where
  "matches_at f r text i \<longleftrightarrow> matcher f r (start_state r text i) \<noteq> []"

function matches_from :: "flags \<Rightarrow> regex \<Rightarrow> string \<Rightarrow> nat \<Rightarrow> regexp_match list" where
  "matches_from f r text lastIndex =
     (case regexp_exec f r text lastIndex of
        None \<Rightarrow> []
      | Some m \<Rightarrow>
          if lastIndex < index m + length (matched m) \<and> index m + length (matched m) \<le> length text
          then m # matches_from f r text (index m + length (matched m))
          else [m])"
  by pat_completeness auto
termination
  by (relation "measure (\<lambda>(f, r, text, lastIndex). Suc (length text) - lastIndex)") auto

declare matches_from.simps [simp del]

text \<open>
  What \<open>find\<close> and \<open>push\<close> do to the tags, by position: \<open>first_tag_index s ts\<close> is the
  position of the first tag whose literal is \<open>s\<close> up to case, \<open>append_range\<close> appends a
  range to the collection at a position, and \<open>record_match\<close> is the body of the loop of
  \<open>FindSingleLineComments\<close> on a match that is not skipped: the range from \<open>match.index\<close>
  to \<open>match.index + match[0].length\<close> goes to the first tag with the literal \<open>match[3]\<close>.
\<close>

fun first_tag_index :: "string \<Rightarrow> CommentTag list \<Rightarrow> nat option" where
  "first_tag_index s [] = None"
| "first_tag_index s (t # ts) =
     (if toLowerCase (tag t) = toLowerCase s then Some 0
      else map_option Suc (first_tag_index s ts))"

definition append_range :: "nat \<Rightarrow> Range \<Rightarrow> CommentTag list \<Rightarrow> CommentTag list" where
  "append_range k r ts = ts[k := (ts ! k)\<lparr>ranges := ranges (ts ! k) @ [r]\<rparr>]"

definition record_match :: "string \<Rightarrow> CommentTag list \<Rightarrow> regexp_match \<Rightarrow> CommentTag list" where
  "record_match text ts m =
     (case group m 3 of
        None \<Rightarrow> ts
      | Some s \<Rightarrow>
          (case first_tag_index s ts of
             None \<Rightarrow> ts
           | Some k \<Rightarrow> append_range k (range_between text (index m) (index m + length (matched m))) ts))"

text \<open>
  \<open>starts_with_ci u s\<close>: the text \<open>s\<close> begins with the literal \<open>u\<close> up to case.
  \<open>no_line_start\<close>: the pattern has no \<open>^\<close>.
\<close>

definition starts_with_ci :: "string \<Rightarrow> string \<Rightarrow> bool" where
  "starts_with_ci u s \<longleftrightarrow> length u \<le> length s \<and> toLowerCase (take (length u) s) = toLowerCase u"

fun no_line_start :: "regex \<Rightarrow> bool" where
  "no_line_start RLineStart = False"
| "no_line_start (RSeq a b) = (no_line_start a \<and> no_line_start b)"
| "no_line_start (RAlt a b) = (no_line_start a \<and> no_line_start b)"
| "no_line_start (RGroup k r) = no_line_start r"
| "no_line_start (RStar g r) = no_line_start r"
| "no_line_start (RPlus r) = no_line_start r"
| "no_line_start _ = True"

section \<open>Example configurations\<close>

definition example_contributions :: Contributions where
  "example_contributions =
     \<lparr>multilineComments = True, useJSDocStyle = True,
      contributed_tags =
        [\<lparr>item_tag = ''!'', item_color = ''#FF2D00'', item_strikethrough = False\<rparr>,
         \<lparr>item_tag = ''?'', item_color = ''#3498DB'', item_strikethrough = False\<rparr>,
         \<lparr>item_tag = ''//'', item_color = ''#474747'', item_strikethrough = True\<rparr>,
         \<lparr>item_tag = ''todo'', item_color = ''#FF8C00'', item_strikethrough = False\<rparr>,
         \<lparr>item_tag = ''*'', item_color = ''#98C379'', item_strikethrough = False\<rparr>]\<rparr>"

definition bang_contributions :: Contributions where
  "bang_contributions =
     \<lparr>multilineComments = True, useJSDocStyle = True,
      contributed_tags =
        [\<lparr>item_tag = ''!'', item_color = ''#FF2D00'', item_strikethrough = False\<rparr>,
         \<lparr>item_tag = ''!!'', item_color = ''#FF8C00'', item_strikethrough = False\<rparr>]\<rparr>"


definition javascript_after_python :: Parser where
  "javascript_after_python =
     SetRegex ''javascript'' (SetRegex ''python'' (new_Parser example_contributions))"

definition python_after_javascript :: Parser where
  "python_after_javascript =
     SetRegex ''python'' (SetRegex ''javascript'' (new_Parser example_contributions))"


section \<open>Properties of the matcher\<close>

lemma consumed_refl: "consumed x [] x"
  by (simp add: consumed_def)

lemma consumed_trans: "consumed x u y \<Longrightarrow> consumed y v z \<Longrightarrow> consumed x (u @ v) z"
  by (simp add: consumed_def)

lemma length_clear_captures [simp]: "length (clear_captures ks caps) = length caps"
  by (induction ks arbitrary: caps) simp_all

lemma accept_char_consumed:
  "y \<in> set (accept_char x ok) \<Longrightarrow> \<exists>c. consumed x [c] y \<and> ok c \<and> snd (snd y) = snd (snd x)"
  by (cases "(x, ok)" rule: accept_char.cases) (auto simp: consumed_def split: if_splits)

lemma matcher_star_cases:
  assumes "y \<in> set (matcher f (RStar g r) x)"
  shows "y = x \<or>
    (\<exists>z \<in> set (matcher f r (fst x, fst (snd x), clear_captures (group_indices r) (snd (snd x)))).
       length (fst (snd z)) < length (fst (snd x)) \<and> y \<in> set (matcher f (RStar g r) z))"
  using assms by (subst (asm) matcher.simps(10)) (auto simp: star_order_def split: if_splits)

lemma matcher_plus_cases:
  assumes "y \<in> set (matcher f (RPlus r) x)"
  shows "\<exists>z \<in> set (matcher f r (fst x, fst (snd x), clear_captures (group_indices r) (snd (snd x)))).
       y \<in> set (matcher f (RStar True r) z)"
  using assms by auto

lemma matcher_seq_cases:
  assumes "y \<in> set (matcher f (RSeq a b) x)"
  shows "\<exists>z \<in> set (matcher f a x). y \<in> set (matcher f b z)"
  using assms by auto

lemma matcher_group_cases:
  assumes "y \<in> set (matcher f (RGroup k r) x)"
  shows "\<exists>z \<in> set (matcher f r x). y = set_capture k x z"
  using assms by auto

lemma matcher_consumed:
  "y \<in> set (matcher f r x) \<Longrightarrow> \<exists>u. consumed x u y \<and> min_length r \<le> length u"
proof (induction f r x arbitrary: y rule: matcher.induct)
  case (1 f x)
  then show ?case by (auto intro: consumed_refl)
next
  case (2 f c x)
  then show ?case by (fastforce dest: accept_char_consumed)
next
  case (3 f x)
  then show ?case by (fastforce dest: accept_char_consumed)
next
  case (4 f neg atoms x)
  then show ?case by (fastforce dest: accept_char_consumed)
next
  case (5 f x)
  then show ?case by (auto intro: consumed_refl split: list.splits if_splits)
next
  case (6 f a b x)
  from "6.prems" obtain z where z: "z \<in> set (matcher f a x)" and y: "y \<in> set (matcher f b z)"
    by auto
  from "6.IH"(1) [OF z] obtain u where u: "consumed x u z" "min_length a \<le> length u" by blast
  from "6.IH"(2) [OF z y] obtain v where v: "consumed z v y" "min_length b \<le> length v" by blast
  show ?case using consumed_trans [OF u(1) v(1)] u(2) v(2) by (intro exI [of _ "u @ v"]) simp
next
  case (7 f a b x)
  then show ?case by (fastforce)
next
  case (8 f k r x)
  from "8.prems" obtain z where z: "z \<in> set (matcher f r x)" and y: "y = set_capture k x z"
    by auto
  from "8.IH" [OF z] obtain u where u: "consumed x u z" "min_length r \<le> length u" by blast
  have "consumed x u y" using u(1) y
    by (cases x; cases z) (auto simp: consumed_def)
  then show ?case using u(2) by auto
next
  case (9 f r x)
  let ?xr = "(fst x, fst (snd x), clear_captures (group_indices r) (snd (snd x)))"
  from "9.prems" obtain z where z: "z \<in> set (matcher f r ?xr)"
    and y: "y \<in> set (matcher f (RStar True r) z)"
    by auto
  from "9.IH"(1) [OF z] obtain u where u: "consumed ?xr u z" "min_length r \<le> length u" by blast
  from "9.IH"(2) [OF z y] obtain v where v: "consumed z v y" by auto
  have "consumed x u z" using u(1) by (simp add: consumed_def)
  from consumed_trans [OF this v] u(2) show ?case by (intro exI [of _ "u @ v"]) simp
next
  case (10 f greedy r x)
  let ?xr = "(fst x, fst (snd x), clear_captures (group_indices r) (snd (snd x)))"
  from "10.prems" consider "y = x"
    | z where "z \<in> set (matcher f r ?xr)" "length (fst (snd z)) < length (fst (snd x))"
        "y \<in> set (matcher f (RStar greedy r) z)"
    by (subst (asm) matcher.simps(10)) (auto simp: star_order_def split: if_splits)
  then show ?case
  proof cases
    case 1
    then show ?thesis by (auto intro: consumed_refl)
  next
    case 2
    from "10.IH"(1) [OF 2(1)] obtain u where u: "consumed ?xr u z"
      by auto
    from "10.IH"(2) [OF 2] obtain v where v: "consumed z v y"
      by auto
    have "consumed x u z" using u by (simp add: consumed_def)
    from consumed_trans [OF this v] show ?thesis by auto
  qed
qed


subsection \<open>exec\<close>

lemma regexp_exec_Some:
  "regexp_exec f r doc i = Some m \<Longrightarrow>
     i \<le> index m \<and> index m \<le> length doc \<and>
     (\<exists>y ys. matcher f r (start_state r doc (index m)) = y # ys \<and>
        matched m = take (length (drop (index m) doc) - length (fst (snd y))) (drop (index m) doc) \<and>
        groups m = snd (snd y))"
proof (induction f r doc i rule: regexp_exec.induct)
  case (1 f r doc i)
  show ?case
  proof (cases "matcher f r (start_state r doc i)")
    case Nil
    with "1.prems" have le: "\<not> length doc < i" and next_try: "regexp_exec f r doc (Suc i) = Some m"
      by (auto simp: regexp_exec.simps [of f r _ i] split: if_splits)
    from "1.IH" [OF le Nil next_try] show ?thesis by auto
  next
    case (Cons y ys)
    with "1.prems" have le: "\<not> length doc < i"
      and m: "m = \<lparr>index = i,
                   matched = take (length (drop i doc) - length (fst (snd y))) (drop i doc),
                   groups = snd (snd y)\<rparr>"
      by (auto simp: regexp_exec.simps [of f r _ i] split: if_splits)
    show ?thesis
      unfolding m using Cons le by simp
  qed
qed

lemma regexp_exec_span:
  assumes "regexp_exec f r doc i = Some m"
  shows "i \<le> index m" and "index m + length (matched m) \<le> length doc"
    and "min_length r \<le> length (matched m)"
    and "take (length (matched m)) (drop (index m) doc) = matched m"
proof -
  from regexp_exec_Some [OF assms] obtain y ys where
    i: "i \<le> index m" "index m \<le> length doc" and
    y: "matcher f r (start_state r doc (index m)) = y # ys" and
    m: "matched m = take (length (drop (index m) doc) - length (fst (snd y))) (drop (index m) doc)"
    by blast
  from y have "y \<in> set (matcher f r (start_state r doc (index m)))" by simp
  from matcher_consumed [OF this] obtain u where
    u: "consumed (start_state r doc (index m)) u y" "min_length r \<le> length u" by blast
  from u(1) have d: "drop (index m) doc = u @ fst (snd y)"
    by (simp add: consumed_def start_state_def)
  with m have mu: "matched m = u" by simp
  show "i \<le> index m" by fact
  show "min_length r \<le> length (matched m)" using mu u(2) by simp
  have "length u \<le> length (drop (index m) doc)" using d by simp
  then show "index m + length (matched m) \<le> length doc" using mu i(2) by simp
  show "take (length (matched m)) (drop (index m) doc) = matched m"
    using d mu by simp
qed

lemma regexp_exec_beyond: "length doc < i \<Longrightarrow> regexp_exec f r doc i = None"
  by (simp add: regexp_exec.simps [of f r _ i])

subsection \<open>Captures\<close>

lemma clear_captures_other: "k \<notin> set ks \<Longrightarrow> clear_captures ks caps ! k = caps ! k"
  by (induction ks arbitrary: caps) auto

lemma matcher_captures_outside:
  "y \<in> set (matcher f r x) \<Longrightarrow> k \<notin> set (group_indices r) \<Longrightarrow> snd (snd y) ! k = snd (snd x) ! k"
proof (induction f r x arbitrary: y rule: matcher.induct)
  case (2 f c x)
  then show ?case by (auto dest: accept_char_consumed)
next
  case (3 f x)
  then show ?case by (auto dest: accept_char_consumed)
next
  case (4 f neg atoms x)
  then show ?case by (auto dest: accept_char_consumed)
next
  case (5 f x)
  then show ?case by (auto split: list.splits if_splits)
next
  case (6 f a b x)
  from "6.prems" obtain z where z: "z \<in> set (matcher f a x)" and y: "y \<in> set (matcher f b z)"
    by auto
  from "6.IH"(1) [OF z] "6.IH"(2) [OF z y] "6.prems"(2) show ?case by simp
next
  case (7 f a b x)
  from "7.prems"(1) have "y \<in> set (matcher f a x) \<or> y \<in> set (matcher f b x)" by simp
  then show ?case
  proof
    assume "y \<in> set (matcher f a x)"
    from "7.IH"(1) [OF this] "7.prems"(2) show ?thesis by simp
  next
    assume "y \<in> set (matcher f b x)"
    from "7.IH"(2) [OF this] "7.prems"(2) show ?thesis by simp
  qed
next
  case (8 f k' r x)
  from "8.prems" obtain z where z: "z \<in> set (matcher f r x)" and y: "y = set_capture k' x z"
    by auto
  from "8.prems"(2) have "k \<noteq> k'" "k \<notin> set (group_indices r)" by auto
  with "8.IH" [OF z] y show ?case
    by (cases x; cases z) auto
next
  case (9 f r x)
  let ?xr = "(fst x, fst (snd x), clear_captures (group_indices r) (snd (snd x)))"
  from "9.prems" obtain z where z: "z \<in> set (matcher f r ?xr)"
    and y: "y \<in> set (matcher f (RStar True r) z)"
    by auto
  from "9.IH"(1) [OF z] "9.IH"(2) [OF z y] "9.prems"(2) show ?case
    by (simp add: clear_captures_other)
next
  case (10 f greedy r x)
  let ?xr = "(fst x, fst (snd x), clear_captures (group_indices r) (snd (snd x)))"
  from "10.prems" consider "y = x"
    | z where "z \<in> set (matcher f r ?xr)" "length (fst (snd z)) < length (fst (snd x))"
        "y \<in> set (matcher f (RStar greedy r) z)"
    by (subst (asm) matcher.simps(10)) (auto simp: star_order_def split: if_splits)
  then show ?case
  proof cases
    case 1
    then show ?thesis by simp
  next
    case 2
    from "10.IH"(1) [OF 2(1)] "10.IH"(2) [OF 2] "10.prems"(2) show ?thesis
      by (simp add: clear_captures_other)
  qed
qed simp

lemma matcher_length_captures:
  "y \<in> set (matcher f r x) \<Longrightarrow> length (snd (snd y)) = length (snd (snd x))"
  by (drule matcher_consumed) (auto simp: consumed_def)

lemma matcher_group_defined:
  assumes "y \<in> set (matcher f (RGroup k r) x)" and "k < length (snd (snd x))"
  shows "snd (snd y) ! k \<noteq> None"
proof -
  from assms(1) obtain z where z: "z \<in> set (matcher f r x)" and y: "y = set_capture k x z"
    by auto
  from matcher_length_captures [OF z] assms(2) y show ?thesis
    by (cases x; cases z) auto
qed

lemma matcher_star_group_defined:
  "y \<in> set (matcher f (RStar g (RGroup k r)) x) \<Longrightarrow> k < length (snd (snd x)) \<Longrightarrow>
   snd (snd x) ! k \<noteq> None \<Longrightarrow> snd (snd y) ! k \<noteq> None"
proof (induction "length (fst (snd x))" arbitrary: x rule: less_induct)
  case less
  let ?xr = "(fst x, fst (snd x), clear_captures (group_indices (RGroup k r)) (snd (snd x)))"
  from matcher_star_cases [OF less.prems(1)] consider "y = x"
    | z where "z \<in> set (matcher f (RGroup k r) ?xr)" "length (fst (snd z)) < length (fst (snd x))"
        "y \<in> set (matcher f (RStar g (RGroup k r)) z)"
    by blast
  then show ?case
  proof cases
    case 1
    with less.prems show ?thesis by simp
  next
    case 2
    have len: "length (snd (snd z)) = length (snd (snd x))"
      using matcher_length_captures [OF 2(1)] by simp
    have "snd (snd z) ! k \<noteq> None"
      using matcher_group_defined [OF 2(1)] less.prems(2) by simp
    from less.hyps [OF 2(2) 2(3)] this len less.prems(2) show ?thesis by simp
  qed
qed

lemma matcher_plus_group_defined:
  assumes "y \<in> set (matcher f (RPlus (RGroup k r)) x)" and "k < length (snd (snd x))"
  shows "snd (snd y) ! k \<noteq> None"
proof -
  let ?xr = "(fst x, fst (snd x), clear_captures (group_indices (RGroup k r)) (snd (snd x)))"
  from matcher_plus_cases [OF assms(1)] obtain z where z: "z \<in> set (matcher f (RGroup k r) ?xr)"
    and y: "y \<in> set (matcher f (RStar True (RGroup k r)) z)"
    by blast
  have len: "length (snd (snd z)) = length (snd (snd x))"
    using matcher_length_captures [OF z] by simp
  have "snd (snd z) ! k \<noteq> None"
    using matcher_group_defined [OF z] assms(2) by simp
  from matcher_star_group_defined [OF y] this len assms(2) show ?thesis by simp
qed

section \<open>Flushing\<close>

lemma ApplyDecorations_loop_calls:
  "fst (ApplyDecorations_loop ts) = map (\<lambda>t. (decoration t, ranges t)) ts"
  by (induction ts) (simp_all add: case_prod_unfold)

lemma ApplyDecorations_loop_tags:
  "snd (ApplyDecorations_loop ts) = map (\<lambda>t. t\<lparr>ranges := []\<rparr>) ts"
  by (induction ts) (simp_all add: case_prod_unfold)

text \<open>
  C8. The flush emits one call per configured tag, in registration order, with the tag's
  decoration and the ranges accumulated so far, also when there are none, and leaves every
  tag with an empty range collection and everything else as it was.
\<close>

theorem ApplyDecorations_flushes:
  "fst (ApplyDecorations p) = map (\<lambda>t. (decoration t, ranges t)) (tags p) \<and>
   length (fst (ApplyDecorations p)) = length (tags p) \<and>
   snd (ApplyDecorations p) = p\<lparr>tags := map (\<lambda>t. t\<lparr>ranges := []\<rparr>) (tags p)\<rparr> \<and>
   map ranges (tags (snd (ApplyDecorations p))) = replicate (length (tags p)) []"
proof -
  have calls: "fst (ApplyDecorations p) = map (\<lambda>t. (decoration t, ranges t)) (tags p)"
    by (simp add: ApplyDecorations_def case_prod_unfold ApplyDecorations_loop_calls)
  have state: "snd (ApplyDecorations p) = p\<lparr>tags := map (\<lambda>t. t\<lparr>ranges := []\<rparr>) (tags p)\<rparr>"
    by (simp add: ApplyDecorations_def case_prod_unfold ApplyDecorations_loop_tags)
  have cleared: "map ranges (map (\<lambda>t. t\<lparr>ranges := []\<rparr>) ts) = replicate (length ts) []"
    for ts :: "CommentTag list"
    by (induction ts) simp_all
  show ?thesis
    using calls state cleared [of "tags p"] by simp
qed


section \<open>Resolving the language\<close>

lemma setTags_loop_eq: "setTags_loop items ts = ts @ map make_tag items"
  by (induction items arbitrary: ts) simp_all

lemma new_Parser_tags: "tags (new_Parser cfg) = map make_tag (contributed_tags cfg)"
  by (simp add: new_Parser_def setTags_def setTags_loop_eq)

lemma new_Parser_ranges: "\<forall>t \<in> set (tags (new_Parser cfg)). ranges t = []"
  by (simp add: new_Parser_tags make_tag_def)

lemma SetRegex_tags [simp]: "tags (SetRegex l p) = tags p"
  by (simp add: SetRegex_def setDelimiter_def Let_def)

lemma SetRegex_slash_languages:
  "l \<in> set slash_languages \<Longrightarrow> SetRegex l p = SetRegex ''javascript'' p"
  by (simp add: SetRegex_def setDelimiter_def slash_languages_def Let_def)

text \<open>
  C5. The flag \<open>ignoreFirstLine\<close> is set for python and nothing ever resets it: once python
  has been resolved, resolving any other language leaves it set, and the first line of a
  javascript document is skipped.
\<close>

theorem ignoreFirstLine_never_reset:
  "ignoreFirstLine (SetRegex l (SetRegex ''python'' p)) \<and>
   ignoreFirstLine javascript_after_python \<and>
   map_option (map_sum id tagged_ranges) (FindSingleLineComments ''// ! alert'' javascript_after_python) =
     Some (Inr [(''!'', []), (''?'', []), (''//'', []), (''todo'', []), (''*'', [])])"
proof -
  have "ignoreFirstLine (SetRegex l (SetRegex ''python'' p))"
    by (simp add: SetRegex_def setDelimiter_def Let_def slash_languages_def hash_languages_def)
  moreover have "ignoreFirstLine javascript_after_python"
    by code_simp
  moreover have
    "map_option (map_sum id tagged_ranges) (FindSingleLineComments ''// ! alert'' javascript_after_python) =
       Some (Inr [(''!'', []), (''?'', []), (''//'', []), (''todo'', []), (''*'', [])])"
    by code_simp
  ultimately show ?thesis by simp
qed

text \<open>
  C3. The flag \<open>highlightMultilineComments\<close> is assigned for the \<open>//\<close> family and for
  terraform and nothing ever resets it: once javascript has been resolved with the
  configuration flag on, resolving python leaves multi-line scanning enabled, and the
  multi-line pass matches in a python document.
\<close>

theorem highlightMultilineComments_never_reset:
  "highlightMultilineComments python_after_javascript \<and>
   map_option (map_sum id tagged_ranges)
     (FindMultilineComments (''/* '' @ [CHR 0x0A] @ '' ! text '' @ [CHR 0x0A] @ '' */'') False
        python_after_javascript) =
     Some (Inr [(''!'', [\<lparr>range_start = \<lparr>line = 1, character = 1\<rparr>,
                          range_end = \<lparr>line = 1, character = 8\<rparr>\<rparr>]),
                (''?'', []), (''//'', []), (''todo'', []), (''*'', [])])"
proof -
  have "highlightMultilineComments python_after_javascript"
    by code_simp
  moreover have
    "map_option (map_sum id tagged_ranges)
       (FindMultilineComments (''/* '' @ [CHR 0x0A] @ '' ! text '' @ [CHR 0x0A] @ '' */'') False
          python_after_javascript) =
       Some (Inr [(''!'', [\<lparr>range_start = \<lparr>line = 1, character = 1\<rparr>,
                            range_end = \<lparr>line = 1, character = 8\<rparr>\<rparr>]),
                  (''?'', []), (''//'', []), (''todo'', []), (''*'', [])])"
    by code_simp
  ultimately show ?thesis by simp
qed

section \<open>Overlapping tags\<close>

text \<open>
  C7. With the tags \<open>!\<close> and \<open>!!\<close> registered in this order, the line \<open>// !! urgent\<close> of a
  document in a language of the \<open>//\<close> family is attributed to \<open>!\<close>: the third group ends
  up holding \<open>!\<close>, and \<open>!!\<close> gets no range.
\<close>

theorem first_registered_tag_wins:
  assumes "l \<in> set slash_languages"
  shows "regexp_exec single_line_flags (expression (SetRegex l (new_Parser bang_contributions)))
           ''// !! urgent'' 0 =
           Some \<lparr>index = 0, matched = ''// !! urgent'',
                 groups = [None, Some ''//'', Some '' '', Some ''!'', Some '' urgent'']\<rparr> \<and>
         map_option (map_sum id tagged_ranges)
           (FindSingleLineComments ''// !! urgent'' (SetRegex l (new_Parser bang_contributions))) =
           Some (Inr [(''!'', [\<lparr>range_start = \<lparr>line = 0, character = 0\<rparr>,
                                range_end = \<lparr>line = 0, character = 12\<rparr>\<rparr>]),
                      (''!!'', [])])"
proof -
  have js: "SetRegex l (new_Parser bang_contributions) =
      SetRegex ''javascript'' (new_Parser bang_contributions)"
    using assms by (rule SetRegex_slash_languages)
  have "regexp_exec single_line_flags
          (expression (SetRegex ''javascript'' (new_Parser bang_contributions))) ''// !! urgent'' 0 =
        Some \<lparr>index = 0, matched = ''// !! urgent'',
              groups = [None, Some ''//'', Some '' '', Some ''!'', Some '' urgent'']\<rparr>"
    by code_simp
  moreover have
    "map_option (map_sum id tagged_ranges)
       (FindSingleLineComments ''// !! urgent'' (SetRegex ''javascript'' (new_Parser bang_contributions))) =
     Some (Inr [(''!'', [\<lparr>range_start = \<lparr>line = 0, character = 0\<rparr>,
                          range_end = \<lparr>line = 0, character = 12\<rparr>\<rparr>]),
                (''!!'', [])])"
    by code_simp
  ultimately show ?thesis by (simp only: js)
qed

theorem first_registered_tag_wins_witness:
  "''typescript'' \<in> set slash_languages \<and>
   map_option (map_sum id tagged_ranges)
     (FindSingleLineComments ''// !! urgent'' (SetRegex ''typescript'' (new_Parser bang_contributions))) =
     Some (Inr [(''!'', [\<lparr>range_start = \<lparr>line = 0, character = 0\<rparr>,
                          range_end = \<lparr>line = 0, character = 12\<rparr>\<rparr>]),
                (''!!'', [])])"
proof -
  have ts: "''typescript'' \<in> set slash_languages"
    by code_simp
  show ?thesis
    using ts first_registered_tag_wins [OF ts] by simp
qed

section \<open>Properties of the patterns\<close>

lemma group_indices_pattern_characters [simp]: "group_indices (pattern_characters s) = []"
  by (induction s rule: pattern_characters.induct) simp_all

lemma count_groups_pattern_characters [simp]: "count_groups (pattern_characters s) = 0"
  by (induction s rule: pattern_characters.induct) simp_all

lemma group_indices_literal [simp]: "group_indices (literal s) = []"
  by (induction s) simp_all

lemma count_groups_literal [simp]: "count_groups (literal s) = 0"
  by (induction s) simp_all

lemma group_indices_alternatives:
  "\<forall>r \<in> set rs. group_indices r = [] \<Longrightarrow> group_indices (alternatives rs) = []"
  by (induction rs rule: alternatives.induct) simp_all

lemma count_groups_alternatives:
  "\<forall>r \<in> set rs. count_groups r = 0 \<Longrightarrow> count_groups (alternatives rs) = 0"
  by (induction rs rule: alternatives.induct) simp_all

lemma group_indices_tag_alternatives [simp]: "group_indices (tag_alternatives ts) = []"
  by (simp add: tag_alternatives_def group_indices_alternatives)

lemma count_groups_tag_alternatives [simp]: "count_groups (tag_alternatives ts) = 0"
  by (simp add: tag_alternatives_def count_groups_alternatives)

lemma min_length_pattern_characters: "s \<noteq> [] \<Longrightarrow> 0 < min_length (pattern_characters s)"
  by (induction s rule: pattern_characters.induct) simp_all

lemma escape_slashes_Nil_iff [simp]: "escape_slashes d = [] \<longleftrightarrow> d = []"
  by (cases d) (simp_all add: escape_slashes_def)

lemma count_groups_single_line_expression [simp]:
  "count_groups (single_line_expression d ts) = 4"
  by (simp add: single_line_expression_def)

lemma min_length_single_line_expression:
  "d \<noteq> [] \<Longrightarrow> 0 < min_length (single_line_expression d ts)"
  using min_length_pattern_characters [of "escape_slashes d"]
  by (simp add: single_line_expression_def)

lemma count_groups_block_expression [simp]: "count_groups (block_expression j) = 4"
  by (simp add: block_expression_def blank_class_def)

lemma min_length_block_expression: "0 < min_length (block_expression j)"
  by (simp add: block_expression_def)

lemma count_groups_comment_expression [simp]: "count_groups (comment_expression j ts) = 5"
  by (simp add: comment_expression_def blank_class_def)

lemma min_length_comment_expression: "0 < min_length (comment_expression j ts)"
  by (simp add: comment_expression_def)

lemma start_state_captures [simp]:
  "length (snd (snd (start_state r doc i))) = Suc (count_groups r)"
  by (simp add: start_state_def)

lemma single_line_expression_group:
  assumes "regexp_exec f (single_line_expression d ts) doc i = Some m"
  shows "\<exists>s. group m 3 = Some s"
proof -
  let ?r = "single_line_expression d ts"
  let ?D = "RGroup 4 (RStar True RDot)"
  from regexp_exec_Some [OF assms] obtain y ys where
    y: "matcher f ?r (start_state ?r doc (index m)) = y # ys" and g: "groups m = snd (snd y)"
    by blast
  from y have "y \<in> set (matcher f ?r (start_state ?r doc (index m)))" by simp
  then obtain z1 z2 z3 where
    z1: "z1 \<in> set (matcher f (RPlus (RGroup 1 (pattern_characters (escape_slashes d))))
              (start_state ?r doc (index m)))" and
    z2: "z2 \<in> set (matcher f (RStar True (RGroup 2 (RAlt (RLit CHR '' '') (RLit CHR 0x09)))) z1)" and
    z3: "z3 \<in> set (matcher f (RPlus (RGroup 3 (tag_alternatives ts))) z2)" and
    y4: "y \<in> set (matcher f ?D z3)"
    unfolding single_line_expression_def by (blast dest!: matcher_seq_cases)
  have len: "length (snd (snd z2)) = 5"
    using matcher_length_captures [OF z1] matcher_length_captures [OF z2] by simp
  have "snd (snd z3) ! 3 \<noteq> None"
    using matcher_plus_group_defined [OF z3] len by simp
  moreover have "snd (snd y) ! 3 = snd (snd z3) ! 3"
    using matcher_captures_outside [OF y4, of 3] by simp
  moreover have "length (snd (snd y)) = 5"
    using matcher_length_captures [OF y4] matcher_length_captures [OF z3] len by simp
  ultimately show ?thesis
    using g by (auto simp: group_def)
qed


lemma comment_expression_groups:
  assumes "regexp_exec f (comment_expression j ts) doc i = Some l"
  shows "\<exists>s2 s3. group l 2 = Some s2 \<and> group l 3 = Some s3"
proof -
  let ?r = "comment_expression j ts"
  let ?G2 = "RGroup 2
                (if j
                 then RSeq (RStar True blank_class) (RSeq (RLit CHR ''*'') (RStar True blank_class))
                 else RSeq (RStar True blank_class) (RStar True blank_class))"
  let ?G3 = "RGroup 3 (tag_alternatives ts)"
  let ?P4 = "RPlus (RGroup 4 (RAlt (RStar True (RClass False [ClassChar CHR '' '']))
                                      (RClass False [ClassChar CHR '':''])))"
  let ?G5 = "RGroup 5 (RSeq (RClass True [ClassChar CHR ''*'', ClassChar CHR ''/''])
                          (RStar True (RClass True [ClassChar CHR 0x0D, ClassChar CHR 0x0A])))"
  from regexp_exec_Some [OF assms] obtain y ys where
    y: "matcher f ?r (start_state ?r doc (index l)) = y # ys" and g: "groups l = snd (snd y)"
    by blast
  from y have "y \<in> set (matcher f ?r (start_state ?r doc (index l)))" by simp
  then obtain z1 z2 z3 z4 where
    z1: "z1 \<in> set (matcher f (RPlus (RGroup 1 RLineStart)) (start_state ?r doc (index l)))" and
    z2: "z2 \<in> set (matcher f ?G2 z1)" and
    z3: "z3 \<in> set (matcher f ?G3 z2)" and
    z4: "z4 \<in> set (matcher f ?P4 z3)" and
    y5: "y \<in> set (matcher f ?G5 z4)"
    unfolding comment_expression_def by (blast dest!: matcher_seq_cases)
  have len1: "length (snd (snd z1)) = 6"
    using matcher_length_captures [OF z1] by simp
  have len2: "length (snd (snd z2)) = 6"
    using matcher_length_captures [OF z2] len1 by simp
  have len3: "length (snd (snd z3)) = 6"
    using matcher_length_captures [OF z3] len2 by simp
  have len: "length (snd (snd y)) = 6"
    using matcher_length_captures [OF y5] matcher_length_captures [OF z4] len3 by simp
  have c2: "snd (snd z2) ! 2 \<noteq> None"
    using matcher_group_defined [OF z2] len1 by simp
  have c3: "snd (snd z3) ! 3 \<noteq> None"
    using matcher_group_defined [OF z3] len2 by simp
  have k2: "snd (snd y) ! 2 = snd (snd z2) ! 2"
    using matcher_captures_outside [OF y5, of 2] matcher_captures_outside [OF z4, of 2]
      matcher_captures_outside [OF z3, of 2]
    by simp
  have k3: "snd (snd y) ! 3 = snd (snd z3) ! 3"
    using matcher_captures_outside [OF y5, of 3] matcher_captures_outside [OF z4, of 3]
    by simp
  show ?thesis
    using c2 c3 k2 k3 len g by (auto simp: group_def)
qed

section \<open>Properties of the passes\<close>

lemma push_range_flushed:
  "map (\<lambda>t. t\<lparr>ranges := []\<rparr>) (push_range s r ts) = map (\<lambda>t. t\<lparr>ranges := []\<rparr>) ts"
  by (induction ts) simp_all

lemma snd_ApplyDecorations:
  "snd (ApplyDecorations p) = p\<lparr>tags := map (\<lambda>t. t\<lparr>ranges := []\<rparr>) (tags p)\<rparr>"
  by (simp add: ApplyDecorations_def case_prod_unfold ApplyDecorations_loop_tags)


lemma attribute_flushed:
  "attribute s r p = Inr p' \<Longrightarrow> snd (ApplyDecorations p') = snd (ApplyDecorations p)"
  by (auto simp: attribute_def snd_ApplyDecorations push_range_flushed split: option.splits if_splits)

lemma single_line_match_flushed:
  "single_line_match doc m p = Inr p' \<Longrightarrow> snd (ApplyDecorations p') = snd (ApplyDecorations p)"
  by (auto simp: single_line_match_def Let_def dest: attribute_flushed split: if_splits)

lemma comment_line_match_flushed:
  "comment_line_match doc m l p = Inr p' \<Longrightarrow> snd (ApplyDecorations p') = snd (ApplyDecorations p)"
  by (auto simp: comment_line_match_def Let_def dest: attribute_flushed split: option.splits)

lemma single_line_loop_flushed_aux:
  assumes "single_line_loop re doc i p = Some res" and "res = Inr p'"
  shows "snd (ApplyDecorations p') = snd (ApplyDecorations p)"
  using assms(2)
proof (induction re doc i p res rule: single_line_loop.raw_induct)
  case (1 loop re doc i p res)
  show ?case
  proof (cases "regexp_exec single_line_flags re doc i")
    case None
    with "1.hyps" "1.prems" show ?thesis by simp
  next
    case (Some m)
    with "1.hyps" "1.prems" obtain p1 where
      p1: "single_line_match doc m p = Inr p1" and
      rest: "loop re doc (index m + length (matched m)) p1 = Some res"
      by (auto split: sum.splits)
    from "1.IH" [OF rest "1.prems"] single_line_match_flushed [OF p1] show ?thesis by simp
  qed
qed fact

lemma single_line_loop_flushed:
  "single_line_loop re doc i p = Some (Inr p') \<Longrightarrow>
   snd (ApplyDecorations p') = snd (ApplyDecorations p)"
  by (rule single_line_loop_flushed_aux) simp_all

lemma comment_line_loop_flushed_aux:
  assumes "comment_line_loop re doc m i p = Some res" and "res = Inr p'"
  shows "snd (ApplyDecorations p') = snd (ApplyDecorations p)"
  using assms(2)
proof (induction re doc m i p res rule: comment_line_loop.raw_induct)
  case (1 loop re doc m i p res)
  show ?case
  proof (cases "regexp_exec comment_flags re (matched m) i")
    case None
    with "1.hyps" "1.prems" show ?thesis by simp
  next
    case (Some l)
    with "1.hyps" "1.prems" obtain p1 where
      p1: "comment_line_match doc m l p = Inr p1" and
      rest: "loop re doc m (index l + length (matched l)) p1 = Some res"
      by (auto split: sum.splits)
    from "1.IH" [OF rest "1.prems"] comment_line_match_flushed [OF p1] show ?thesis by simp
  qed
qed fact

lemma comment_line_loop_flushed:
  "comment_line_loop re doc m i p = Some (Inr p') \<Longrightarrow>
   snd (ApplyDecorations p') = snd (ApplyDecorations p)"
  by (rule comment_line_loop_flushed_aux) simp_all

lemma block_loop_flushed_aux:
  assumes "block_loop re cre doc i p = Some res" and "res = Inr p'"
  shows "snd (ApplyDecorations p') = snd (ApplyDecorations p)"
  using assms(2)
proof (induction re cre doc i p res rule: block_loop.raw_induct)
  case (1 loop re cre doc i p res)
  show ?case
  proof (cases "regexp_exec block_flags re doc i")
    case None
    with "1.hyps" "1.prems" show ?thesis by simp
  next
    case (Some m)
    with "1.hyps" "1.prems" obtain p1 where
      p1: "comment_line_loop cre doc m 0 p = Some (Inr p1)" and
      rest: "loop re cre doc (index m + length (matched m)) p1 = Some res"
      by (auto split: sum.splits option.splits)
    from "1.IH" [OF rest "1.prems"] comment_line_loop_flushed [OF p1] show ?thesis by simp
  qed
qed fact

lemma block_loop_flushed:
  "block_loop re cre doc i p = Some (Inr p') \<Longrightarrow>
   snd (ApplyDecorations p') = snd (ApplyDecorations p)"
  by (rule block_loop_flushed_aux) simp_all

lemma FindSingleLineComments_flushed:
  "FindSingleLineComments doc p = Some (Inr p') \<Longrightarrow>
   snd (ApplyDecorations p') = snd (ApplyDecorations p)"
  unfolding FindSingleLineComments_def by (rule single_line_loop_flushed)

lemma FindMultilineComments_flushed:
  "FindMultilineComments doc j p = Some (Inr p') \<Longrightarrow>
   snd (ApplyDecorations p') = snd (ApplyDecorations p)"
  unfolding FindMultilineComments_def
  by (auto dest: block_loop_flushed split: if_splits)

lemma flushed_fixpoint:
  assumes "\<forall>t \<in> set (tags p). ranges t = []"
  shows "snd (ApplyDecorations p) = p"
proof -
  have "map (\<lambda>t. t\<lparr>ranges := []\<rparr>) (tags p) = tags p"
    using assms by (induction "tags p") (auto simp: map_idI)
  then show ?thesis by (simp add: snd_ApplyDecorations)
qed

lemma scan_cycle_state:
  assumes "scan_cycle doc j p = Some (Inr (out, p'))"
  shows "p' = snd (ApplyDecorations p)"
proof -
  from assms obtain p1 p2 where
    p1: "FindSingleLineComments doc p = Some (Inr p1)" and
    p2: "FindMultilineComments doc j p1 = Some (Inr p2)" and
    fl: "ApplyDecorations p2 = (out, p')"
    by (auto simp: scan_cycle_def split: option.splits sum.splits)
  from fl have "p' = snd (ApplyDecorations p2)" by simp
  with FindSingleLineComments_flushed [OF p1] FindMultilineComments_flushed [OF p2]
  show ?thesis by simp
qed


subsection \<open>The passes return\<close>

lemma single_line_match_returns:
  "group m 3 = Some s \<Longrightarrow> \<exists>p1. single_line_match doc m p = Inr p1"
  by (simp add: single_line_match_def Let_def attribute_def)

lemma comment_line_match_returns:
  "group l 2 = Some s2 \<Longrightarrow> group l 3 = Some s3 \<Longrightarrow> \<exists>p1. comment_line_match doc m l p = Inr p1"
  by (simp add: comment_line_match_def Let_def attribute_def)

lemma single_line_loop_returns:
  assumes progress: "0 < min_length re"
    and defined: "\<And>i m. regexp_exec single_line_flags re doc i = Some m \<Longrightarrow> \<exists>s. group m 3 = Some s"
  shows "\<exists>p'. single_line_loop re doc i p = Some (Inr p')"
proof (induction "Suc (length doc) - i" arbitrary: i p rule: less_induct)
  case less
  show ?case
  proof (cases "regexp_exec single_line_flags re doc i")
    case None
    then show ?thesis by (subst single_line_loop.simps) simp
  next
    case (Some m)
    from defined [OF Some] single_line_match_returns obtain p1 where
      p1: "single_line_match doc m p = Inr p1" by blast
    from regexp_exec_span [OF Some] progress have
      "i < index m + length (matched m)" "index m + length (matched m) \<le> length doc"
      by simp_all
    then have "Suc (length doc) - (index m + length (matched m)) < Suc (length doc) - i"
      by simp
    from less.hyps [OF this] obtain p' where
      "single_line_loop re doc (index m + length (matched m)) p1 = Some (Inr p')" by blast
    with Some p1 show ?thesis by (subst single_line_loop.simps) simp
  qed
qed

lemma comment_line_loop_returns:
  assumes progress: "0 < min_length re"
    and defined: "\<And>i l. regexp_exec comment_flags re (matched m) i = Some l \<Longrightarrow>
        \<exists>s2 s3. group l 2 = Some s2 \<and> group l 3 = Some s3"
  shows "\<exists>p'. comment_line_loop re doc m i p = Some (Inr p')"
proof (induction "Suc (length (matched m)) - i" arbitrary: i p rule: less_induct)
  case less
  show ?case
  proof (cases "regexp_exec comment_flags re (matched m) i")
    case None
    then show ?thesis by (subst comment_line_loop.simps) simp
  next
    case (Some l)
    from defined [OF Some] comment_line_match_returns obtain p1 where
      p1: "comment_line_match doc m l p = Inr p1" by blast
    from regexp_exec_span [OF Some] progress have
      "i < index l + length (matched l)" "index l + length (matched l) \<le> length (matched m)"
      by simp_all
    then have "Suc (length (matched m)) - (index l + length (matched l)) < Suc (length (matched m)) - i"
      by simp
    from less.hyps [OF this] obtain p' where
      "comment_line_loop re doc m (index l + length (matched l)) p1 = Some (Inr p')" by blast
    with Some p1 show ?thesis by (subst comment_line_loop.simps) simp
  qed
qed

lemma block_loop_returns:
  "\<exists>p'. block_loop (block_expression j) (comment_expression j ts) doc i p = Some (Inr p')"
proof (induction "Suc (length doc) - i" arbitrary: i p rule: less_induct)
  case less
  let ?re = "block_expression j" and ?cre = "comment_expression j ts"
  show ?case
  proof (cases "regexp_exec block_flags ?re doc i")
    case None
    then show ?thesis by (subst block_loop.simps) simp
  next
    case (Some m)
    from comment_line_loop_returns [of ?cre m doc 0 p, OF min_length_comment_expression]
      comment_expression_groups
    obtain p1 where p1: "comment_line_loop ?cre doc m 0 p = Some (Inr p1)" by blast
    from regexp_exec_span [OF Some] min_length_block_expression [of j] have
      "i < index m + length (matched m)" "index m + length (matched m) \<le> length doc"
      by simp_all
    then have "Suc (length doc) - (index m + length (matched m)) < Suc (length doc) - i"
      by simp
    from less.hyps [OF this] obtain p' where
      "block_loop ?re ?cre doc (index m + length (matched m)) p1 = Some (Inr p')" by blast
    with Some p1 show ?thesis by (subst block_loop.simps) simp
  qed
qed

lemma FindMultilineComments_returns: "\<exists>p'. FindMultilineComments doc j p = Some (Inr p')"
  using block_loop_returns by (simp add: FindMultilineComments_def)

lemma FindSingleLineComments_returns:
  assumes "expression p = single_line_expression d ts" and "d \<noteq> []"
  shows "\<exists>p'. FindSingleLineComments doc p = Some (Inr p')"
  unfolding FindSingleLineComments_def assms(1)
  using single_line_loop_returns [OF min_length_single_line_expression [OF assms(2)]]
    single_line_expression_group
  by blast

lemma SetRegex_expression:
  "expression (SetRegex l p) = single_line_expression (delimiter (SetRegex l p)) (tags p)"
  by (simp add: SetRegex_def setDelimiter_def Let_def)

lemma SetRegex_supported_delimiter:
  assumes "l \<in> set classification_table"
  shows "delimiter (SetRegex l p) \<in> set [''//'', ''#'', ''--'', [CHR 0x27], ''%'', '';'']"
  using assms by (auto simp: SetRegex_def setDelimiter_def Let_def classification_table_def)

lemma scan_cycle_returns:
  assumes "expression p = single_line_expression d ts" and "d \<noteq> []"
  shows "\<exists>out. scan_cycle doc j p = Some (Inr (out, snd (ApplyDecorations p)))"
proof -
  from FindSingleLineComments_returns [OF assms] obtain p1 where
    p1: "FindSingleLineComments doc p = Some (Inr p1)" by blast
  from FindMultilineComments_returns obtain p2 where
    p2: "FindMultilineComments doc j p1 = Some (Inr p2)" by blast
  have "scan_cycle doc j p = Some (Inr (fst (ApplyDecorations p2), snd (ApplyDecorations p2)))"
    using p1 p2 by (simp add: scan_cycle_def)
  with FindSingleLineComments_flushed [OF p1] FindMultilineComments_flushed [OF p2]
  show ?thesis by auto
qed


section \<open>Scan cycles\<close>

text \<open>
  C9. For every tag configuration, language identifier and document, a scan cycle of the
  parser built from them that returns leaves the parser as it was, so the next cycle on the
  same document returns the same calls with the same ranges. For every language of the
  classification table the cycle does return.
\<close>

theorem scan_cycle_idempotent:
  "(scan_cycle doc j (SetRegex l (new_Parser cfg)) = Some (Inr (out, p')) \<longrightarrow>
      scan_cycle doc j p' = Some (Inr (out, p'))) \<and>
   (l \<in> set classification_table \<longrightarrow>
      (\<exists>out1 p1. scan_cycle doc j (SetRegex l (new_Parser cfg)) = Some (Inr (out1, p1)) \<and>
         scan_cycle doc j p1 = Some (Inr (out1, p1))))"
proof -
  let ?p = "SetRegex l (new_Parser cfg)"
  have empty: "\<forall>t \<in> set (tags ?p). ranges t = []"
    using new_Parser_ranges [of cfg] by simp
  have fixed: "snd (ApplyDecorations ?p) = ?p"
    using empty by (rule flushed_fixpoint)
  have first: "scan_cycle doc j p' = Some (Inr (out, p'))"
    if "scan_cycle doc j ?p = Some (Inr (out, p'))"
    using scan_cycle_state [OF that] that fixed by simp
  have second: "\<exists>out1 p1. scan_cycle doc j ?p = Some (Inr (out1, p1)) \<and>
      scan_cycle doc j p1 = Some (Inr (out1, p1))"
    if "l \<in> set classification_table"
  proof -
    from SetRegex_supported_delimiter [OF that, of "new_Parser cfg"]
    have "delimiter ?p \<noteq> []" by auto
    from scan_cycle_returns [OF SetRegex_expression this, of doc j] fixed
    show ?thesis by auto
  qed
  from first second show ?thesis by blast
qed

theorem scan_cycle_idempotent_witness:
  "''javascript'' \<in> set classification_table \<and>
   map_option (map_sum id (map snd \<circ> fst))
     (scan_cycle (''a = 1 // todo: check'' @ [CHR 0x0A] @ ''/* '' @ [CHR 0x0A] @ '' ! text '' @
                    [CHR 0x0A] @ '' */'') False
        (SetRegex ''javascript'' (new_Parser example_contributions))) =
     Some (Inr [[\<lparr>range_start = \<lparr>line = 2, character = 1\<rparr>,
                   range_end = \<lparr>line = 2, character = 8\<rparr>\<rparr>],
                [], [],
                [\<lparr>range_start = \<lparr>line = 0, character = 6\<rparr>,
                   range_end = \<lparr>line = 0, character = 20\<rparr>\<rparr>],
                []]) \<and>
   (\<exists>out1 p1.
      scan_cycle (''a = 1 // todo: check'' @ [CHR 0x0A] @ ''/* '' @ [CHR 0x0A] @ '' ! text '' @
                    [CHR 0x0A] @ '' */'') False
        (SetRegex ''javascript'' (new_Parser example_contributions)) = Some (Inr (out1, p1)) \<and>
      scan_cycle (''a = 1 // todo: check'' @ [CHR 0x0A] @ ''/* '' @ [CHR 0x0A] @ '' ! text '' @
                    [CHR 0x0A] @ '' */'') False p1 = Some (Inr (out1, p1)))"
proof -
  have js: "''javascript'' \<in> set classification_table"
    by code_simp
  have out: "map_option (map_sum id (map snd \<circ> fst))
     (scan_cycle (''a = 1 // todo: check'' @ [CHR 0x0A] @ ''/* '' @ [CHR 0x0A] @ '' ! text '' @
                    [CHR 0x0A] @ '' */'') False
        (SetRegex ''javascript'' (new_Parser example_contributions))) =
     Some (Inr [[\<lparr>range_start = \<lparr>line = 2, character = 1\<rparr>,
                   range_end = \<lparr>line = 2, character = 8\<rparr>\<rparr>],
                [], [],
                [\<lparr>range_start = \<lparr>line = 0, character = 6\<rparr>,
                   range_end = \<lparr>line = 0, character = 20\<rparr>\<rparr>],
                []])"
    by code_simp
  from scan_cycle_idempotent [THEN conjunct2, rule_format, OF js]
  show ?thesis using js out by blast
qed

section \<open>Case folding\<close>

lemma of_char_toLowerCase_char:
  "of_char (toLowerCase_char c) =
     (if (65::nat) \<le> of_char c \<and> of_char c \<le> (90::nat) \<or>
         (192::nat) \<le> of_char c \<and> of_char c \<le> (222::nat) \<and> of_char c \<noteq> (215::nat)
      then of_char c + 32 else (of_char c :: nat))"
proof -
  have "(of_char c :: nat) < 256" by simp
  then show ?thesis by (auto simp: toLowerCase_char_def)
qed

lemma of_char_toUpperCase_char:
  "of_char (toUpperCase_char c) =
     (if (97::nat) \<le> of_char c \<and> of_char c \<le> (122::nat) \<or>
         (224::nat) \<le> of_char c \<and> of_char c \<le> (254::nat) \<and> of_char c \<noteq> (247::nat)
      then of_char c - 32 else (of_char c :: nat))"
proof -
  have "(of_char c :: nat) < 256" by simp
  then show ?thesis by (auto simp: toUpperCase_char_def)
qed

lemma char_eq_iff_nat: "c = d \<longleftrightarrow> (of_char c :: nat) = of_char d"
  by simp

lemma toUpperCase_toLowerCase_char: "toUpperCase_char (toLowerCase_char c) = toUpperCase_char c"
proof -
  define n where "n = (of_char c :: nat)"
  have "(of_char (toUpperCase_char (toLowerCase_char c)) :: nat) = of_char (toUpperCase_char c)"
    unfolding of_char_toUpperCase_char [of "toLowerCase_char c"] of_char_toUpperCase_char [of c]
      of_char_toLowerCase_char n_def [symmetric]
    by (cases "65 \<le> n \<and> n \<le> 90 \<or> 192 \<le> n \<and> n \<le> 222 \<and> n \<noteq> 215") auto
  then show ?thesis by simp
qed

lemma toLowerCase_toUpperCase_char: "toLowerCase_char (toUpperCase_char c) = toLowerCase_char c"
proof -
  define n where "n = (of_char c :: nat)"
  have "(of_char (toLowerCase_char (toUpperCase_char c)) :: nat) = of_char (toLowerCase_char c)"
    unfolding of_char_toLowerCase_char [of "toUpperCase_char c"] of_char_toLowerCase_char [of c]
      of_char_toUpperCase_char n_def [symmetric]
    by (cases "97 \<le> n \<and> n \<le> 122 \<or> 224 \<le> n \<and> n \<le> 254 \<and> n \<noteq> 247") auto
  then show ?thesis by simp
qed

lemma toLowerCase_char_eq_iff:
  "toLowerCase_char c = toLowerCase_char d \<longleftrightarrow> toUpperCase_char c = toUpperCase_char d"
  by (metis toUpperCase_toLowerCase_char toLowerCase_toUpperCase_char)

lemma toLowerCase_eq_iff:
  "toLowerCase a = toLowerCase b \<longleftrightarrow> map toUpperCase_char a = map toUpperCase_char b"
proof (induction a arbitrary: b)
  case Nil
  then show ?case by (auto simp: toLowerCase_def)
next
  case (Cons c a)
  then show ?case
    by (cases b) (auto simp: toLowerCase_def toLowerCase_char_eq_iff)
qed

lemma toUpperCase_char_nonletter: "\<not> is_letter d \<Longrightarrow> toUpperCase_char d = d"
  by (auto simp: is_letter_def toUpperCase_char_def)

lemma is_letter_toUpperCase_char: "toUpperCase_char c \<noteq> c \<Longrightarrow> is_letter (toUpperCase_char c)"
proof -
  define n where "n = (of_char c :: nat)"
  assume "toUpperCase_char c \<noteq> c"
  then have range: "97 \<le> n \<and> n \<le> 122 \<or> 224 \<le> n \<and> n \<le> 254 \<and> n \<noteq> 247"
    unfolding n_def by (auto simp: toUpperCase_char_def split: if_splits)
  then have "(of_char (toUpperCase_char c) :: nat) = n - 32"
    unfolding of_char_toUpperCase_char n_def by simp
  with range show ?thesis
    unfolding is_letter_def by auto
qed

lemma toUpperCase_char_eq_nonletter:
  assumes "\<not> is_letter d"
  shows "toUpperCase_char c = toUpperCase_char d \<longleftrightarrow> c = d"
proof
  assume eq: "toUpperCase_char c = toUpperCase_char d"
  with toUpperCase_char_nonletter [OF assms] have "toUpperCase_char c = d" by simp
  with assms is_letter_toUpperCase_char [of c] show "c = d" by metis
qed simp

lemma canonicalize_eq_nonletter:
  "\<not> is_letter d \<Longrightarrow> canonicalize f c = canonicalize f d \<longleftrightarrow> c = d"
  by (simp add: canonicalize_def toUpperCase_char_eq_nonletter)


section \<open>Literals and alternatives\<close>

lemma escape_slashes_append: "escape_slashes (a @ b) = escape_slashes a @ escape_slashes b"
  by (simp add: escape_slashes_def)

lemma escape_Cons:
  "escape_slashes (escape_metacharacters (c # s)) =
     (if c \<in> set ''()[{*+.$^|?'' \<or> c = CHR 0x5C \<or> c = CHR ''/'' then [CHR 0x5C, c] else [c]) @
     escape_slashes (escape_metacharacters s)"
proof -
  have "escape_metacharacters (c # s) =
      (if c \<in> set ''()[{*+.$^|?'' \<or> c = CHR 0x5C then [CHR 0x5C, c] else [c]) @
      escape_metacharacters s"
    by (simp add: escape_metacharacters_def)
  then show ?thesis
    by (auto simp: escape_slashes_append) (auto simp: escape_slashes_def)
qed

lemma pattern_characters_plain:
  "c \<noteq> CHR 0x5C \<Longrightarrow> pattern_characters (c # xs) = RSeq (RLit c) (pattern_characters xs)"
  by (cases xs) simp_all

lemma pattern_characters_escaped:
  "pattern_characters (escape_slashes (escape_metacharacters s)) = literal s"
proof (induction s)
  case Nil
  then show ?case by (simp add: escape_slashes_def escape_metacharacters_def)
next
  case (Cons c s)
  show ?case
  proof (cases "c \<in> set ''()[{*+.$^|?'' \<or> c = CHR 0x5C \<or> c = CHR ''/''")
    case True
    then have "escape_slashes (escape_metacharacters (c # s)) =
        CHR 0x5C # c # escape_slashes (escape_metacharacters s)"
      by (simp only: escape_Cons if_True append.simps)
    then show ?thesis using Cons by simp
  next
    case False
    then have "escape_slashes (escape_metacharacters (c # s)) =
        c # escape_slashes (escape_metacharacters s)"
      by (simp only: escape_Cons if_False append.simps)
    moreover from False have "c \<noteq> CHR 0x5C" by simp
    ultimately show ?thesis using Cons by (simp add: pattern_characters_plain)
  qed
qed

lemma pattern_characters_delimiter:
  "CHR 0x5C \<notin> set d \<Longrightarrow> pattern_characters (escape_slashes d) = literal d"
proof (induction d)
  case Nil
  then show ?case by (simp add: escape_slashes_def)
next
  case (Cons c d)
  have "escape_slashes (c # d) = (if c = CHR ''/'' then [CHR 0x5C, c] else [c]) @ escape_slashes d"
    by (simp add: escape_slashes_def)
  with Cons show ?case by (auto simp: pattern_characters_plain)
qed

lemma matcher_literal:
  "matcher f (literal s) (b, inp, caps) =
     (if length s \<le> length inp \<and>
         map (canonicalize f) (take (length s) inp) = map (canonicalize f) s
      then [(rev (take (length s) inp) @ b, drop (length s) inp, caps)] else [])"
proof (induction s arbitrary: b inp)
  case Nil
  then show ?case by simp
next
  case (Cons c s)
  show ?case
  proof (cases inp)
    case Nil
    then show ?thesis by simp
  next
    case (Cons d ds)
    then show ?thesis using Cons.IH [of "d # b" ds] by simp
  qed
qed

lemma matcher_alternatives:
  "matcher f (alternatives rs) x = (if rs = [] then [x] else concat (map (\<lambda>r. matcher f r x) rs))"
  by (induction rs rule: alternatives.induct) simp_all

lemma matcher_tag_alternatives:
  assumes "\<forall>t \<in> set ts. escapedTag t = escape_slashes (escape_metacharacters (tag t))"
    and "ts \<noteq> []"
  shows "matcher f (tag_alternatives ts) x = concat (map (\<lambda>t. matcher f (literal (tag t)) x) ts)"
proof -
  have "map (\<lambda>t. pattern_characters (escapedTag t)) ts = map (\<lambda>t. literal (tag t)) ts"
    using assms(1) by (simp add: pattern_characters_escaped)
  then have "tag_alternatives ts = alternatives (map (\<lambda>t. literal (tag t)) ts)"
    by (simp only: tag_alternatives_def)
  then show ?thesis
    using assms(2) by (simp add: matcher_alternatives comp_def)
qed

lemma concat_map_single:
  assumes "t \<in> set ts" and "distinct (map key ts)"
    and "\<forall>u \<in> set ts. g u = (if key u = key t then [v] else [])"
  shows "concat (map g ts) = [v]"
  using assms
proof (induction ts)
  case Nil
  then show ?case by simp
next
  case (Cons a ts)
  show ?case
  proof (cases "key a = key t")
    case True
    with Cons.prems have "\<forall>u \<in> set ts. key u \<noteq> key t" by (auto simp: image_iff)
    with Cons.prems have "\<forall>u \<in> set ts. g u = []" by simp
    then have "concat (map g ts) = []" by simp
    with True Cons.prems show ?thesis by simp
  next
    case False
    with Cons.prems have "t \<in> set ts" by auto
    with Cons.IH Cons.prems False show ?thesis by simp
  qed
qed

lemma concat_map_none: "\<forall>u \<in> set ts. g u = [] \<Longrightarrow> concat (map g ts) = []"
  by simp


lemma length_toLowerCase [simp]: "length (toLowerCase s) = length s"
  by (simp add: toLowerCase_def)

lemma take_toLowerCase: "take n (toLowerCase s) = toLowerCase (take n s)"
  by (simp add: toLowerCase_def take_map)


lemma canonicalize_ignoreCase: "ignoreCase f \<Longrightarrow> canonicalize f = toUpperCase_char"
  by (auto simp: canonicalize_def)

lemma not_letter_blank [simp]: "\<not> is_letter CHR '' ''" "\<not> is_letter CHR 0x09"
  by (simp_all add: is_letter_def)

lemma nonletter_member:
  assumes "toLowerCase w = toLowerCase v" and "\<not> is_letter c" and "c \<in> set w"
  shows "c \<in> set v"
proof -
  from assms(1) have "map toUpperCase_char w = map toUpperCase_char v"
    by (simp add: toLowerCase_eq_iff)
  then have "set (map toUpperCase_char w) = set (map toUpperCase_char v)" by simp
  with assms(3) have "toUpperCase_char c \<in> toUpperCase_char ` set v" by auto
  then obtain e where "e \<in> set v" "toUpperCase_char e = toUpperCase_char c" by auto
  with assms(2) show ?thesis by (simp add: toUpperCase_char_eq_nonletter)
qed

lemma tag_candidate:
  assumes fold: "ignoreCase f"
    and t: "unambiguous_tag ts t" and w: "toLowerCase w = toLowerCase (tag t)"
    and u: "u \<in> set ts"
  shows "(length (tag u) \<le> length (w @ CHR '' '' # r) \<and>
          map (canonicalize f) (take (length (tag u)) (w @ CHR '' '' # r)) =
            map (canonicalize f) (tag u)) \<longleftrightarrow>
         toLowerCase (tag u) = toLowerCase (tag t)"
proof
  assume eq: "toLowerCase (tag u) = toLowerCase (tag t)"
  then have len: "length (tag u) = length w"
    using w by (metis length_toLowerCase)
  from eq w have "map toUpperCase_char w = map toUpperCase_char (tag u)"
    by (simp add: toLowerCase_eq_iff [symmetric])
  with len show "length (tag u) \<le> length (w @ CHR '' '' # r) \<and>
      map (canonicalize f) (take (length (tag u)) (w @ CHR '' '' # r)) = map (canonicalize f) (tag u)"
    by (simp add: canonicalize_ignoreCase [OF fold])
next
  assume m: "length (tag u) \<le> length (w @ CHR '' '' # r) \<and>
      map (canonicalize f) (take (length (tag u)) (w @ CHR '' '' # r)) = map (canonicalize f) (tag u)"
  from t u have blank: "CHR '' '' \<notin> set (tag u)" and strict: "\<not> strict_prefix_ci (tag u) (tag t)"
    by (auto simp: unambiguous_tag_def)
  have lw: "length w = length (tag t)"
    using w by (metis length_toLowerCase)
  show "toLowerCase (tag u) = toLowerCase (tag t)"
  proof (cases "length (tag u) \<le> length w")
    case True
    with m have "map toUpperCase_char (take (length (tag u)) w) = map toUpperCase_char (tag u)"
      by (simp add: canonicalize_ignoreCase [OF fold])
    then have "toLowerCase (take (length (tag u)) w) = toLowerCase (tag u)"
      by (simp add: toLowerCase_eq_iff)
    then have pre: "toLowerCase (tag u) = take (length (tag u)) (toLowerCase (tag t))"
      using w by (simp add: take_toLowerCase [symmetric])
    with strict have "\<not> length (tag u) < length (tag t)"
      by (simp add: strict_prefix_ci_def)
    with True lw have "length (tag u) = length (tag t)" by simp
    with pre show ?thesis by simp
  next
    case False
    then have lt: "length w < length (tag u)" by simp
    from m have "map (canonicalize f) (take (length (tag u)) (w @ CHR '' '' # r)) ! length w =
        map (canonicalize f) (tag u) ! length w"
      by simp
    moreover have "take (length (tag u)) (w @ CHR '' '' # r) ! length w = CHR '' ''"
      using lt by (simp add: nth_append)
    moreover have "length w < length (take (length (tag u)) (w @ CHR '' '' # r))"
      using lt m by simp
    ultimately have "canonicalize f (tag u ! length w) = canonicalize f CHR '' ''"
      using lt by (simp del: take_append)
    then have "tag u ! length w = CHR '' ''"
      by (simp add: canonicalize_eq_nonletter)
    with lt blank show ?thesis by (metis nth_mem)
  qed
qed

lemma matcher_literal_mismatch:
  "canonicalize f c \<noteq> canonicalize f d \<Longrightarrow> matcher f (literal (d # ds)) (b, c # s, caps) = []"
  by simp

lemma matcher_literal_end: "matcher f (literal (d # ds)) (b, [], caps) = []"
  by simp

lemma tag_not_at_blank:
  assumes t: "unambiguous_tag ts t" and nonempty: "tag t \<noteq> []" and u: "u \<in> set ts"
  shows "matcher f (literal (tag u)) (b, CHR '' '' # r, caps) = []"
proof (cases "tag u")
  case Nil
  with nonempty have "strict_prefix_ci (tag u) (tag t)"
    by (simp add: strict_prefix_ci_def toLowerCase_def)
  with t u show ?thesis by (auto simp: unambiguous_tag_def)
next
  case (Cons d ds)
  with t u have "d \<noteq> CHR '' ''" by (auto simp: unambiguous_tag_def)
  then have "canonicalize f CHR '' '' \<noteq> canonicalize f d"
    using canonicalize_eq_nonletter [of "CHR '' ''" f d] by auto
  with Cons show ?thesis by (simp del: literal.simps add: matcher_literal_mismatch)
qed


section \<open>Runs of single characters\<close>

lemma star_run_head:
  assumes step: "\<And>b c s caps. matcher f r (b, c # s, caps) = (if ok c then [(c # b, s, caps)] else [])"
    and stop: "\<And>b caps. matcher f r (b, [], caps) = []"
    and plain: "group_indices r = []"
    and run: "\<forall>c \<in> set s. ok c" and limit: "t = [] \<or> \<not> ok (hd t)"
  shows "\<exists>ys. matcher f (RStar True r) (b, s @ t, caps) = (rev s @ b, t, caps) # ys"
  using run
proof (induction s arbitrary: b)
  case Nil
  have "matcher f r (b, t, caps) = []"
    using limit step [of b "hd t" "tl t" caps] stop [of b caps] by (cases t) auto
  then show ?case
    by (subst matcher.simps(10)) (simp add: plain star_order_def)
next
  case (Cons c s)
  then obtain ys where "matcher f (RStar True r) (c # b, s @ t, caps) = (rev s @ c # b, t, caps) # ys"
    by auto
  with Cons.prems show ?case
    by (subst matcher.simps(10)) (simp add: plain star_order_def step)
qed

lemma matcher_RDot_step:
  "matcher f RDot (b, c # s, caps) = (if \<not> isLineTerminator c then [(c # b, s, caps)] else [])"
  "matcher f RDot (b, [], caps) = []"
  by simp_all

lemma star_dot_head:
  assumes "\<forall>c \<in> set s. \<not> isLineTerminator c" and "t = [] \<or> isLineTerminator (hd t)"
  shows "\<exists>ys. matcher f (RStar True RDot) (b, s @ t, caps) = (rev s @ b, t, caps) # ys"
  by (rule star_run_head [where ok = "\<lambda>c. \<not> isLineTerminator c"]) (use assms in simp_all)

section \<open>The single-line expression on a comment line\<close>

lemma single_line_expression_at_comment:
  assumes fold: "ignoreCase f"
    and d: "D = d # ds" "\<not> is_letter d" "d \<noteq> CHR '' ''" "d \<noteq> CHR 0x09" "CHR 0x5C \<notin> set D"
    and esc: "escaped_tags ts"
    and t: "unambiguous_tag ts t" and nonempty: "tag t \<noteq> []"
    and w: "toLowerCase w = toLowerCase (tag t)"
    and rest: "\<forall>c \<in> set rest. \<not> isLineTerminator c"
    and post: "post = [] \<or> isLineTerminator (hd post)"
  shows "\<exists>ys. matcher f (single_line_expression D ts)
           (b, D @ CHR '' '' # w @ CHR '' '' # rest @ post, [None, None, None, None, None]) =
         (rev (D @ CHR '' '' # w @ CHR '' '' # rest) @ b, post,
          [None, Some D, Some '' '', Some w, Some (CHR '' '' # rest)]) # ys"
proof -
  let ?A = "RPlus (RGroup 1 (literal D))"
  let ?B = "RStar True (RGroup 2 (RAlt (RLit CHR '' '') (RLit CHR 0x09)))"
  let ?C = "RPlus (RGroup 3 (tag_alternatives ts))"
  let ?E = "RGroup 4 (RStar True RDot)"
  let ?I2 = "CHR '' '' # rest @ post"
  let ?I1 = "w @ ?I2"
  let ?x0 = "(b, D @ CHR '' '' # ?I1, [None, None, None, None, None])"
  let ?x1 = "(rev D @ b, CHR '' '' # ?I1, [None, Some D, None, None, None])"
  let ?x2 = "(CHR '' '' # rev D @ b, ?I1, [None, Some D, Some '' '', None, None])"
  let ?x3 = "(rev w @ CHR '' '' # rev D @ b, ?I2, [None, Some D, Some '' '', Some w, None])"
  let ?x4 = "(rev (D @ CHR '' '' # w @ CHR '' '' # rest) @ b, post,
          [None, Some D, Some '' '', Some w, Some (CHR '' '' # rest)])"
  from t have ts: "ts \<noteq> []" by (auto simp: unambiguous_tag_def)
  from w nonempty have w_nonempty: "w \<noteq> []"
    by (metis length_0_conv length_toLowerCase)
  have w_blank: "CHR '' '' \<notin> set w" "CHR 0x09 \<notin> set w"
    using t nonletter_member [OF w] by (auto simp: unambiguous_tag_def)
  have not_d: "canonicalize f CHR '' '' \<noteq> canonicalize f d"
    using canonicalize_eq_nonletter [OF d(2), of f "CHR '' ''"] d(3) by auto
  have A: "matcher f ?A ?x0 = [?x1]"
  proof -
    have "matcher f (RGroup 1 (literal D)) ?x0 = [?x1]"
      by (simp add: matcher_literal del: literal.simps)
    moreover have "matcher f (RGroup 1 (literal D)) (rev D @ b, CHR '' '' # ?I1, [None, None, None, None, None]) = []"
      unfolding d(1) using not_d by simp
    ultimately show ?thesis
      by (simp add: matcher.simps(10) star_order_def del: literal.simps)
  qed
  obtain w0 ws where w_split: "w = w0 # ws" using w_nonempty by (cases w) auto
  with w_blank have w0: "w0 \<noteq> CHR '' ''" "w0 \<noteq> CHR 0x09" by auto
  have B: "matcher f ?B ?x1 = [?x2, ?x1]"
  proof -
    have tab: "canonicalize f CHR '' '' \<noteq> canonicalize f CHR 0x09"
      by (simp add: canonicalize_eq_nonletter)
    have w0': "canonicalize f w0 \<noteq> canonicalize f CHR '' ''" "canonicalize f w0 \<noteq> canonicalize f CHR 0x09"
      using w0 by (simp_all add: canonicalize_eq_nonletter)
    show ?thesis
      using tab w0' unfolding w_split
      by (simp add: matcher.simps(10) star_order_def)
  qed
  let ?x3raw = "(rev w @ CHR '' '' # rev D @ b, ?I2, [None, Some D, Some '' '', None, None])"
  have cand: "matcher f (literal (tag u)) ?x2 =
      (if toLowerCase (tag u) = toLowerCase (tag t) then [?x3raw] else [])" if "u \<in> set ts" for u
  proof (cases "toLowerCase (tag u) = toLowerCase (tag t)")
    case True
    with w have "length (tag u) = length w" by (metis length_toLowerCase)
    with True tag_candidate [OF fold t w that, of "rest @ post"] show ?thesis
      by (simp add: matcher_literal)
  next
    case False
    with tag_candidate [OF fold t w that, of "rest @ post"] show ?thesis
      by (simp add: matcher_literal)
  qed
  have alt2: "matcher f (tag_alternatives ts) ?x2 = [?x3raw]"
    using esc ts t cand
    by (simp add: matcher_tag_alternatives escaped_tags_def unambiguous_tag_def
        concat_map_single [where key = "\<lambda>u. toLowerCase (tag u)" and t = t])
  have alt3: "matcher f (tag_alternatives ts)
      (rev w @ CHR '' '' # rev D @ b, ?I2, [None, Some D, Some '' '', None, None]) = []"
    using esc ts tag_not_at_blank [OF t nonempty]
    by (simp add: matcher_tag_alternatives escaped_tags_def)
  have C: "matcher f ?C ?x2 = [?x3]"
    using alt2 alt3 by (simp add: matcher.simps(10) star_order_def)
  have "\<exists>ys. matcher f (RStar True RDot) ?x3 = (rev (CHR '' '' # rest) @ rev w @ CHR '' '' # rev D @ b, post,
      [None, Some D, Some '' '', Some w, None]) # ys"
    using star_dot_head [of "CHR '' '' # rest" post f "rev w @ CHR '' '' # rev D @ b"] rest post
    by (simp add: isLineTerminator_def)
  then obtain ys where E: "matcher f ?E ?x3 = ?x4 # ys"
    by auto
  have "pattern_characters (escape_slashes D) = literal D"
    using d(5) by (rule pattern_characters_delimiter)
  then have "single_line_expression D ts = RSeq ?A (RSeq ?B (RSeq ?C ?E))"
    by (simp add: single_line_expression_def)
  then show ?thesis
    using A B C E by (simp del: matcher.simps(8-9))
qed


lemma single_line_expression_no_delimiter:
  assumes "D = d # ds" and "CHR 0x5C \<notin> set D"
    and "inp = [] \<or> canonicalize f (hd inp) \<noteq> canonicalize f d"
  shows "matcher f (single_line_expression D ts) (b, inp, caps) = []"
proof -
  have "pattern_characters (escape_slashes D) = literal D"
    using assms(2) by (rule pattern_characters_delimiter)
  moreover have "matcher f (literal D) (b, inp, caps') = []" for caps'
    using assms(1,3) by (cases inp) auto
  ultimately show ?thesis
    by (simp add: single_line_expression_def del: literal.simps)
qed

section \<open>Where exec finds its match\<close>

lemma regexp_exec_hit:
  assumes "matcher f r (start_state r doc n) = y # ys" and "n \<le> length doc"
  shows "regexp_exec f r doc n =
    Some \<lparr>index = n,
          matched = take (length (drop n doc) - length (fst (snd y))) (drop n doc),
          groups = snd (snd y)\<rparr>"
  using assms by (simp add: regexp_exec.simps [of f r _ n])

lemma regexp_exec_skip:
  assumes "\<forall>k. i \<le> k \<and> k < n \<longrightarrow> matcher f r (start_state r doc k) = []"
    and "i \<le> n" and "n \<le> length doc"
  shows "regexp_exec f r doc i = regexp_exec f r doc n"
  using assms
proof (induction "n - i" arbitrary: i)
  case 0
  then show ?case by simp
next
  case (Suc j)
  then have "i < n" by simp
  with Suc.prems have "matcher f r (start_state r doc i) = []" by simp
  with Suc.prems \<open>i < n\<close> have "regexp_exec f r doc i = regexp_exec f r doc (Suc i)"
    by (simp add: regexp_exec.simps [of f r _ i])
  also have "\<dots> = regexp_exec f r doc n"
    using Suc.hyps Suc.prems \<open>i < n\<close> by (intro Suc.hyps(1)) auto
  finally show ?case .
qed

lemma regexp_exec_none:
  assumes "\<forall>k. i \<le> k \<and> k \<le> length doc \<longrightarrow> matcher f r (start_state r doc k) = []"
  shows "regexp_exec f r doc i = None"
  using assms
proof (induction "Suc (length doc) - i" arbitrary: i)
  case 0
  then show ?case by (simp add: regexp_exec.simps [of f r _ i])
next
  case (Suc j)
  then have le: "i \<le> length doc" by simp
  with Suc.prems have "matcher f r (start_state r doc i) = []" by simp
  with le have "regexp_exec f r doc i = regexp_exec f r doc (Suc i)"
    by (simp add: regexp_exec.simps [of f r _ i])
  also have "\<dots> = None"
    using Suc.hyps Suc.prems by (intro Suc.hyps(1)) auto
  finally show ?case .
qed

lemma start_state_append:
  "start_state r (pre @ s) (length pre) = (rev pre, s, replicate (Suc (count_groups r)) None)"
  by (simp add: start_state_def)

lemma start_state_inside:
  assumes "k < length doc"
  shows "\<exists>b s. start_state r doc k = (b, doc ! k # s, replicate (Suc (count_groups r)) None)"
  using assms by (auto simp: start_state_def Cons_nth_drop_Suc [symmetric])

lemma start_state_end:
  "start_state r doc (length doc) = (rev doc, [], replicate (Suc (count_groups r)) None)"
  by (simp add: start_state_def)

lemma replicate_5: "replicate (Suc 4) x = [x, x, x, x, x]" "replicate 5 x = [x, x, x, x, x]"
  by (simp_all add: numeral_eq_Suc)

section \<open>Positions\<close>

lemma positionAt_origin:
  assumes "0 < n" and "n \<le> length doc"
  shows "line (positionAt doc n) \<noteq> 0 \<or> character (positionAt doc n) \<noteq> 0"
proof -
  from assms have ne: "take n doc \<noteq> []" by auto
  show ?thesis
  proof (cases "last (take n doc) = CHR 0x0A")
    case True
    with ne have "CHR 0x0A \<in> set (take n doc)" by (metis last_in_set)
    then have "filter (\<lambda>c. c = CHR 0x0A) (take n doc) \<noteq> []"
      by (auto simp: filter_empty_conv)
    then show ?thesis by (simp add: positionAt_def)
  next
    case False
    with ne have "takeWhile (\<lambda>c. c \<noteq> CHR 0x0A) (rev (take n doc)) \<noteq> []"
      by (cases "rev (take n doc)") (auto simp: last_rev hd_rev [symmetric] rev_is_Nil_conv simp del: rev_take)
    then show ?thesis by (simp add: positionAt_def)
  qed
qed

lemma positionAt_0: "positionAt doc 0 = \<lparr>line = 0, character = 0\<rparr>"
  by (simp add: positionAt_def)

lemma push_range_miss:
  "\<forall>u \<in> set ts. toLowerCase (tag u) \<noteq> toLowerCase s \<Longrightarrow> push_range s r ts = ts"
  by (induction ts) simp_all

lemma push_range_unambiguous:
  assumes "t \<in> set ts" and "distinct (map (\<lambda>u. toLowerCase (tag u)) ts)"
    and "toLowerCase w = toLowerCase (tag t)"
  shows "push_range w r ts = map (\<lambda>u. if u = t then u\<lparr>ranges := ranges u @ [r]\<rparr> else u) ts"
  using assms(1,2)
proof (induction ts)
  case Nil
  then show ?case by simp
next
  case (Cons a ts)
  show ?case
  proof (cases "toLowerCase (tag a) = toLowerCase w")
    case True
    with Cons.prems assms(3) have a: "a = t"
      by (auto simp: image_iff)
    with Cons.prems have "t \<notin> set ts" by (auto simp: image_iff)
    then have "map (\<lambda>u. if u = t then u\<lparr>ranges := ranges u @ [r]\<rparr> else u) ts = ts"
      by (induction ts) auto
    with True a show ?thesis by simp
  next
    case False
    with Cons.prems assms(3) have "t \<in> set ts" "a \<noteq> t" by auto
    with Cons False show ?thesis by simp
  qed
qed


section \<open>The single-line pass on a document with one comment\<close>

lemma single_line_scan:
  assumes expr: "expression p = single_line_expression D (tags p)"
    and d: "D = d # ds" "\<not> is_letter d" "d \<noteq> CHR '' ''" "d \<noteq> CHR 0x09" "CHR 0x5C \<notin> set D"
    and esc: "escaped_tags (tags p)"
    and t: "unambiguous_tag (tags p) t" and nonempty: "tag t \<noteq> []"
    and w: "toLowerCase w = toLowerCase (tag t)"
    and rest: "\<forall>c \<in> set rest. \<not> isLineTerminator c"
    and post: "post = [] \<or> isLineTerminator (hd post)"
    and pre_free: "d \<notin> set pre" and post_free: "d \<notin> set post"
    and ln: "ln = D @ CHR '' '' # w @ CHR '' '' # rest"
    and doc: "doc = pre @ ln @ post"
  shows "regexp_exec single_line_flags (expression p) doc 0 =
           Some \<lparr>index = length pre, matched = ln,
                 groups = [None, Some D, Some '' '', Some w, Some (CHR '' '' # rest)]\<rparr>"
    and "regexp_exec single_line_flags (expression p) doc (length pre + length ln) = None"
    and "FindSingleLineComments doc p =
           Some (Inr (if ignoreFirstLine p \<and> pre = [] then p
                      else p\<lparr>tags := map (\<lambda>u. if u = t
                             then u\<lparr>ranges := ranges u @
                                    [range_between doc (length pre) (length pre + length ln)]\<rparr>
                             else u) (tags p)\<rparr>))"
proof -
  let ?f = single_line_flags
  let ?r = "single_line_expression D (tags p)"
  let ?m = "\<lparr>index = length pre, matched = ln,
             groups = [None, Some D, Some '' '', Some w, Some (CHR '' '' # rest)]\<rparr>"
  have fold: "ignoreCase ?f" by (simp add: single_line_flags_def)
  have other: "matcher ?f ?r (start_state ?r doc k) = []" if "k < length doc" "doc ! k \<noteq> d" for k
  proof -
    from start_state_inside [OF that(1), of ?r] obtain b s where
      "start_state ?r doc k = (b, doc ! k # s, replicate (Suc (count_groups ?r)) None)" by blast
    moreover have "canonicalize ?f (doc ! k) \<noteq> canonicalize ?f d"
      using that(2) d(2) by (simp add: canonicalize_eq_nonletter)
    ultimately show ?thesis
      using single_line_expression_no_delimiter [OF d(1) d(5), of "doc ! k # s" ?f] by simp
  qed
  have at_end: "matcher ?f ?r (start_state ?r doc (length doc)) = []"
    using single_line_expression_no_delimiter [OF d(1) d(5), of "[]" ?f]
    by (simp add: start_state_end)
  have before: "\<forall>k. 0 \<le> k \<and> k < length pre \<longrightarrow> matcher ?f ?r (start_state ?r doc k) = []"
  proof (intro allI impI)
    fix k assume k: "0 \<le> k \<and> k < length pre"
    then have "doc ! k = pre ! k" by (simp add: doc nth_append)
    with k pre_free have "doc ! k \<noteq> d" by (metis nth_mem)
    with k show "matcher ?f ?r (start_state ?r doc k) = []"
      by (intro other) (simp_all add: doc)
  qed
  from single_line_expression_at_comment [OF fold d esc t nonempty w rest post, of "rev pre"]
  obtain ys where here: "matcher ?f ?r (start_state ?r doc (length pre)) =
      (rev ln @ rev pre, post, [None, Some D, Some '' '', Some w, Some (CHR '' '' # rest)]) # ys"
    unfolding doc ln by (auto simp: start_state_append replicate_5)
  have "regexp_exec ?f ?r doc 0 = regexp_exec ?f ?r doc (length pre)"
    using before by (intro regexp_exec_skip) (simp_all add: doc)
  also have "\<dots> = Some ?m"
    using regexp_exec_hit [OF here] by (simp add: doc)
  finally have first: "regexp_exec ?f ?r doc 0 = Some ?m" .
  have after: "\<forall>k. length pre + length ln \<le> k \<and> k \<le> length doc \<longrightarrow>
      matcher ?f ?r (start_state ?r doc k) = []"
  proof (intro allI impI)
    fix k assume k: "length pre + length ln \<le> k \<and> k \<le> length doc"
    show "matcher ?f ?r (start_state ?r doc k) = []"
    proof (cases "k = length doc")
      case True
      with at_end show ?thesis by simp
    next
      case False
      with k have lt: "k < length doc" by simp
      have "doc ! k = ((pre @ ln) @ post) ! k" by (simp add: doc)
      also have "\<dots> = post ! (k - length (pre @ ln))"
        using k by (subst nth_append) simp
      finally have "doc ! k = post ! (k - (length pre + length ln))" by simp
      moreover from k lt have "k - (length pre + length ln) < length post"
        by (simp add: doc)
      ultimately have "doc ! k \<noteq> d" using post_free by (metis nth_mem)
      with lt show ?thesis by (rule other)
    qed
  qed
  then have second: "regexp_exec ?f ?r doc (length pre + length ln) = None"
    by (rule regexp_exec_none)
  show "regexp_exec ?f (expression p) doc 0 = Some ?m"
    using first by (simp add: expr)
  show "regexp_exec ?f (expression p) doc (length pre + length ln) = None"
    using second by (simp add: expr)
  let ?range = "range_between doc (length pre) (length pre + length ln)"
  let ?p1 = "if ignoreFirstLine p \<and> pre = [] then p
      else p\<lparr>tags := map (\<lambda>u. if u = t then u\<lparr>ranges := ranges u @ [?range]\<rparr> else u) (tags p)\<rparr>"
  have third: "group ?m 3 = Some w" by (simp add: group_def)
  have pushed: "push_range w ?range (tags p) =
      map (\<lambda>u. if u = t then u\<lparr>ranges := ranges u @ [?range]\<rparr> else u) (tags p)"
    using t w by (intro push_range_unambiguous) (simp_all add: unambiguous_tag_def)
  have step: "single_line_match doc ?m p = Inr ?p1"
  proof (cases "pre = []")
    case True
    then show ?thesis
      using third pushed
      by (simp add: single_line_match_def Let_def positionAt_0 attribute_def range_between_def)
  next
    case False
    then have "line (positionAt doc (length pre)) \<noteq> 0 \<or> character (positionAt doc (length pre)) \<noteq> 0"
      by (intro positionAt_origin) (simp_all add: doc)
    with False show ?thesis
      using third pushed
      by (auto simp: single_line_match_def Let_def attribute_def range_between_def)
  qed
  have "single_line_loop ?r doc (length pre + length ln) ?p1 = Some (Inr ?p1)"
    using second by (subst single_line_loop.simps) simp
  then have "single_line_loop ?r doc 0 p = Some (Inr ?p1)"
    using first step by (subst single_line_loop.simps) simp
  then show "FindSingleLineComments doc p = Some (Inr ?p1)"
    by (simp add: FindSingleLineComments_def expr)
qed

section \<open>Parsers built by the constructor and \<open>SetRegex\<close>\<close>

lemma new_Parser_escaped_tags: "escaped_tags (tags (new_Parser cfg))"
  by (simp add: new_Parser_tags escaped_tags_def make_tag_def)


lemma SetRegex_fresh_ignoreFirstLine:
  "ignoreFirstLine (SetRegex l (new_Parser cfg)) \<longleftrightarrow> l = ''python''"
  by (auto simp: SetRegex_def setDelimiter_def Let_def new_Parser_def setTags_def
      slash_languages_def hash_languages_def)


section \<open>Character classes\<close>

lemma not_letter_punctuation [simp]:
  "\<not> is_letter CHR ''*''" "\<not> is_letter CHR ''/''" "\<not> is_letter CHR '':''"
  "\<not> is_letter CHR 0x0A" "\<not> is_letter CHR 0x0D"
  by (simp_all add: is_letter_def)

lemma blank_class_step:
  "matcher f blank_class (b, c # s, caps) =
     (if c = CHR '' '' \<or> c = CHR 0x09 then [(c # b, s, caps)] else [])"
  "matcher f blank_class (b, [], caps) = []"
  by (simp_all add: blank_class_def canonicalize_eq_nonletter)

lemma any_class_step:
  "matcher f (RClass False [ClassSpace, ClassNonSpace]) (b, c # s, caps) = [(c # b, s, caps)]"
  "matcher f (RClass False [ClassSpace, ClassNonSpace]) (b, [], caps) = []"
  by simp_all

lemma space_class_step:
  "matcher f (RClass False [ClassChar CHR '' '']) (b, c # s, caps) =
     (if c = CHR '' '' then [(c # b, s, caps)] else [])"
  "matcher f (RClass False [ClassChar CHR '' '']) (b, [], caps) = []"
  by (simp_all add: canonicalize_eq_nonletter)

lemma colon_class_step:
  "matcher f (RClass False [ClassChar CHR '':'']) (b, c # s, caps) =
     (if c = CHR '':'' then [(c # b, s, caps)] else [])"
  "matcher f (RClass False [ClassChar CHR '':'']) (b, [], caps) = []"
  by (simp_all add: canonicalize_eq_nonletter)

lemma not_star_slash_step:
  "matcher f (RClass True [ClassChar CHR ''*'', ClassChar CHR ''/'']) (b, c # s, caps) =
     (if c \<noteq> CHR ''*'' \<and> c \<noteq> CHR ''/'' then [(c # b, s, caps)] else [])"
  "matcher f (RClass True [ClassChar CHR ''*'', ClassChar CHR ''/'']) (b, [], caps) = []"
  by (simp_all add: canonicalize_eq_nonletter)

lemma not_newline_step:
  "matcher f (RClass True [ClassChar CHR 0x0D, ClassChar CHR 0x0A]) (b, c # s, caps) =
     (if \<not> isLineTerminator c then [(c # b, s, caps)] else [])"
  "matcher f (RClass True [ClassChar CHR 0x0D, ClassChar CHR 0x0A]) (b, [], caps) = []"
  by (auto simp: canonicalize_eq_nonletter isLineTerminator_def)

lemma not_star_step:
  "matcher f (RClass True [ClassChar CHR ''*'']) (b, c # s, caps) =
     (if c \<noteq> CHR ''*'' then [(c # b, s, caps)] else [])"
  by (simp_all add: canonicalize_eq_nonletter)

lemma lit_step:
  "\<not> is_letter d \<Longrightarrow> matcher f (RLit d) (b, c # s, caps) = (if c = d then [(c # b, s, caps)] else [])"
  "matcher f (RLit d) (b, [], caps) = []"
  by (simp_all add: canonicalize_eq_nonletter)

section \<open>The lazy run of a block\<close>

lemma lazy_any_run:
  "matcher f (RStar False (RClass False [ClassSpace, ClassNonSpace])) (b, s, caps) =
     map (\<lambda>k. (rev (take k s) @ b, drop k s, caps)) [0..<Suc (length s)]"
proof (induction s arbitrary: b)
  case Nil
  show ?case by (subst matcher.simps(10)) (simp add: star_order_def)
next
  case (Cons c s)
  have "map (\<lambda>k. (rev (take k (c # s)) @ b, drop k (c # s), caps)) [0..<Suc (length (c # s))] =
      (b, c # s, caps) # map (\<lambda>k. (rev (take k s) @ c # b, drop k s, caps)) [0..<Suc (length s)]"
    by (subst upt_rec) (simp add: map_Suc_upt [symmetric] del: upt_Suc)
  then show ?case
    using Cons [of "c # b"]
    by (subst matcher.simps(10)) (simp add: star_order_def del: upt_Suc)
qed


lemma contains_block_end_Cons: "contains_block_end s \<Longrightarrow> contains_block_end (a # s)"
  by (cases s) simp_all

lemma no_block_end_inside:
  "\<not> contains_block_end s \<Longrightarrow> k < length s \<Longrightarrow>
   drop k (s @ CHR ''*'' # CHR ''/'' # post) \<noteq> CHR ''*'' # CHR ''/'' # r"
proof (induction s arbitrary: k)
  case Nil
  then show ?case by simp
next
  case (Cons a s)
  show ?case
  proof (cases k)
    case 0
    with Cons.prems show ?thesis by (cases s) auto
  next
    case (Suc k')
    with Cons.prems Cons.IH [of k'] contains_block_end_Cons [of s a] show ?thesis by auto
  qed
qed

lemma matcher_block_end:
  "matcher f (literal ''*/'') (b, inp, caps) =
     (case inp of
        c # d # r \<Rightarrow> if c = CHR ''*'' \<and> d = CHR ''/'' then [(d # c # b, r, caps)] else []
      | _ \<Rightarrow> [])"
  by (auto simp: canonicalize_eq_nonletter split: list.splits)

lemma concat_map_first:
  assumes "\<forall>k < n. g k = []" and "n \<le> m"
  shows "concat (map g [0..<Suc m]) = g n @ concat (map g [Suc n..<Suc m])"
proof -
  have "[0..<n + (Suc m - n)] = [0..<n] @ [n..<n + (Suc m - n)]"
    by (rule upt_add_eq_append) simp
  moreover have "[n..<Suc m] = n # [Suc n..<Suc m]"
    using assms(2) by (simp add: upt_conv_Cons del: upt_Suc)
  ultimately have "[0..<Suc m] = [0..<n] @ n # [Suc n..<Suc m]"
    using assms(2) by (simp del: upt_Suc)
  moreover have "concat (map g [0..<n]) = []"
    using assms(1) by simp
  ultimately show ?thesis by simp
qed

lemma set_capture_take:
  "k \<le> length S \<Longrightarrow>
   set_capture n (b, S, caps) (rev (take k S) @ b, drop k S, caps) =
     (rev (take k S) @ b, drop k S, caps[n := Some (take k S)])"
  by simp

lemma lazy_run_to_block_end:
  assumes "\<not> contains_block_end s" and "3 < length caps" and "4 < length caps"
  shows "\<exists>ys. matcher f (RSeq (RGroup 3 (RStar False (RClass False [ClassSpace, ClassNonSpace])))
                  (RGroup 4 (literal ''*/'')))
           (b, s @ CHR ''*'' # CHR ''/'' # post, caps) =
         (rev (s @ ''*/'') @ b, post, caps[3 := Some s, 4 := Some ''*/'']) # ys"
proof -
  define S where "S = s @ CHR ''*'' # CHR ''/'' # post"
  let ?x = "(b, S, caps)"
  let ?st = "\<lambda>k. (rev (take k S) @ b, drop k S, caps[3 := Some (take k S)])"
  let ?g = "\<lambda>k. matcher f (RGroup 4 (literal ''*/'')) (?st k)"
  have "matcher f (RGroup 3 (RStar False (RClass False [ClassSpace, ClassNonSpace]))) ?x =
      map (set_capture 3 ?x) (map (\<lambda>k. (rev (take k S) @ b, drop k S, caps)) [0..<Suc (length S)])"
    by (simp only: matcher.simps(8) lazy_any_run)
  also have "\<dots> = map ?st [0..<Suc (length S)]"
    unfolding map_map comp_def
    by (rule map_cong [OF refl]) (simp only: set_upt set_capture_take, simp add: set_capture_take del: set_capture.simps)
  finally have runs: "matcher f (RGroup 3 (RStar False (RClass False [ClassSpace, ClassNonSpace]))) ?x =
      map ?st [0..<Suc (length S)]" .
  have before: "\<forall>k < length s. ?g k = []"
  proof (intro allI impI)
    fix k assume k: "k < length s"
    have "matcher f (literal ''*/'') (b', drop k S, caps') = []" for b' caps'
      using no_block_end_inside [OF assms(1) k, of post]
      unfolding matcher_block_end S_def by (auto split: list.splits)
    then show "?g k = []" by (simp del: literal.simps)
  qed
  have at: "?g (length s) = [(rev (s @ ''*/'') @ b, post, caps[3 := Some s, 4 := Some ''*/''])]"
    using assms(2,3) by (simp add: matcher_block_end S_def del: literal.simps)
  have "matcher f (RSeq (RGroup 3 (RStar False (RClass False [ClassSpace, ClassNonSpace])))
                  (RGroup 4 (literal ''*/''))) ?x = concat (map ?g [0..<Suc (length S)])"
    by (simp only: matcher.simps(6) runs map_map comp_def)
  also have "\<dots> = ?g (length s) @ concat (map ?g [Suc (length s)..<Suc (length S)])"
    using before by (intro concat_map_first) (simp_all add: S_def)
  finally show ?thesis using at unfolding S_def by simp
qed


section \<open>The block pattern on a block\<close>

lemma opener_fails:
  assumes "inp = [] \<or> hd inp \<noteq> CHR ''/''"
  shows "matcher f (RPlus (RGroup 2
                (if j then literal ''/**''
                 else RSeq (RLit CHR ''/'') (RSeq (RLit CHR ''*'') (RClass True [ClassChar CHR ''*''])))))
           (b, inp, caps) = []"
  using assms by (cases inp; cases j) (simp_all add: canonicalize_eq_nonletter)

lemma block_start_members:
  assumes "y \<in> set (matcher f (RGroup 1 (RAlt RLineStart blank_class)) (b, inp, caps))"
  shows "fst (snd y) = inp \<or>
     inp \<noteq> [] \<and> (hd inp = CHR '' '' \<or> hd inp = CHR 0x09) \<and> fst (snd y) = tl inp"
  using assms
  by (cases inp) (auto simp: blank_class_step split: list.splits if_splits)

lemma block_expression_no_start:
  assumes "inp = [] \<or>
     hd inp \<noteq> CHR ''/'' \<and>
       (hd inp \<noteq> CHR '' '' \<and> hd inp \<noteq> CHR 0x09 \<or> tl inp = [] \<or> hd (tl inp) \<noteq> CHR ''/'')"
  shows "matcher f (block_expression j) (b, inp, caps) = []"
proof -
  let ?G1 = "RGroup 1 (RAlt RLineStart blank_class)"
  let ?P2 = "RPlus (RGroup 2
                (if j then literal ''/**''
                 else RSeq (RLit CHR ''/'') (RSeq (RLit CHR ''*'') (RClass True [ClassChar CHR ''*'']))))"
  let ?T = "RSeq (RGroup 3 (RStar False (RClass False [ClassSpace, ClassNonSpace])))
                  (RGroup 4 (literal ''*/''))"
  have "matcher f (RSeq ?P2 ?T) y = []" if "y \<in> set (matcher f ?G1 (b, inp, caps))" for y
  proof -
    obtain b' inp' caps' where y: "y = (b', inp', caps')" by (cases y) auto
    from block_start_members [OF that] assms y
    have "inp' = [] \<or> hd inp' \<noteq> CHR ''/''" by auto
    from opener_fails [OF this, of f j b' caps']
    show ?thesis unfolding y by (simp only: matcher.simps(6)) simp
  qed
  then have "\<forall>y \<in> set (matcher f ?G1 (b, inp, caps)). matcher f (RSeq ?P2 ?T) y = []"
    by blast
  then have "concat (map (matcher f (RSeq ?P2 ?T)) (matcher f ?G1 (b, inp, caps))) = []"
    by (rule concat_map_none)
  moreover have "block_expression j = RSeq ?G1 (RSeq ?P2 ?T)"
    by (simp add: block_expression_def)
  ultimately show ?thesis by (simp only: matcher.simps(6))
qed

lemma block_expression_at_block:
  assumes start: "b = [] \<or> isLineTerminator (hd b)"
    and body: "\<not> contains_block_end body" "body = c # cs" "c \<noteq> CHR ''/''"
    and opener: "opener = (if j then ''/**'' else ''/* '')"
  shows "\<exists>ys. matcher block_flags (block_expression j)
           (b, opener @ body @ CHR ''*'' # CHR ''/'' # post, [None, None, None, None, None]) =
         (rev (opener @ body @ ''*/'') @ b, post,
          [None, Some [], Some opener, Some body, Some ''*/'']) # ys"
proof -
  let ?f = block_flags
  let ?G1 = "RGroup 1 (RAlt RLineStart blank_class)"
  let ?P2 = "RPlus (RGroup 2
                (if j then literal ''/**''
                 else RSeq (RLit CHR ''/'') (RSeq (RLit CHR ''*'') (RClass True [ClassChar CHR ''*'']))))"
  let ?T = "RSeq (RGroup 3 (RStar False (RClass False [ClassSpace, ClassNonSpace])))
                  (RGroup 4 (literal ''*/''))"
  let ?I = "body @ CHR ''*'' # CHR ''/'' # post"
  let ?x0 = "(b, opener @ ?I, [None, None, None, None, None])"
  let ?x1 = "(b, opener @ ?I, [None, Some [], None, None, None])"
  let ?x2 = "(rev opener @ b, ?I, [None, Some [], Some opener, None, None])"
  have G1: "matcher ?f ?G1 ?x0 = [?x1]"
    using start unfolding opener
    by (cases b; cases j) (auto simp: block_flags_def blank_class_step)
  have P2: "matcher ?f ?P2 ?x1 = [?x2]"
  proof -
    let ?R = "if j then literal ''/**''
        else RSeq (RLit CHR ''/'') (RSeq (RLit CHR ''*'') (RClass True [ClassChar CHR ''*'']))"
    have plain: "group_indices ?R = []" by simp
    have once: "matcher ?f ?R ?x1 = [(rev opener @ b, ?I, [None, Some [], None, None, None])]"
      unfolding opener by (cases j) (simp_all add: lit_step not_star_step canonicalize_eq_nonletter)
    have again: "matcher ?f ?R (rev opener @ b, ?I, caps) = []" for caps
      unfolding body(2) using body(3) by (cases j) (simp_all add: canonicalize_eq_nonletter)
    have group_again: "matcher ?f (RGroup 2 ?R) (rev opener @ b, ?I, caps) = []" for caps
      by (simp only: matcher.simps(8) again) simp
    have star: "matcher ?f (RStar True (RGroup 2 ?R)) ?x2 = [?x2]"
      by (subst matcher.simps(10)) (simp only: fst_conv snd_conv group_again, simp add: star_order_def)
    have "matcher ?f (RPlus (RGroup 2 ?R)) ?x1 =
        concat (map (matcher ?f (RStar True (RGroup 2 ?R)))
          (matcher ?f (RGroup 2 ?R) (b, opener @ ?I, clear_captures (group_indices (RGroup 2 ?R))
             [None, Some [], None, None, None])))"
      by (simp only: matcher.simps(9) fst_conv snd_conv)
    also have "clear_captures (group_indices (RGroup 2 ?R)) [None, Some [], None, None, None] =
        [None, Some [], None, None, None]"
      by (simp only: group_indices.simps plain) simp
    also have "matcher ?f (RGroup 2 ?R) ?x1 = [?x2]"
      by (simp only: matcher.simps(8) once) (simp add: opener)
    finally show ?thesis using star by simp
  qed
  from lazy_run_to_block_end [OF body(1), of "[None, Some [], Some opener, None, None]" ?f "rev opener @ b" post]
  obtain ys where T: "matcher ?f ?T ?x2 =
      (rev (body @ ''*/'') @ rev opener @ b, post, [None, Some [], Some opener, Some body, Some ''*/'']) # ys"
    by auto
  have "block_expression j = RSeq ?G1 (RSeq ?P2 ?T)"
    by (simp add: block_expression_def)
  then show ?thesis
    using G1 P2 T by (simp del: matcher.simps(6-10) literal.simps add: matcher.simps(6))
qed


section \<open>The pieces of the line pattern\<close>

lemma line_start_here:
  assumes "multiline f" and "b = [] \<or> isLineTerminator (hd b)"
  shows "matcher f (RPlus (RGroup 1 RLineStart)) (b, inp, caps) = [(b, inp, caps[1 := Some []])]"
proof -
  have once: "matcher f (RGroup 1 RLineStart) (b, inp, caps') = [(b, inp, caps'[1 := Some []])]"
    for caps'
    using assms by (cases b) auto
  have "matcher f (RStar True (RGroup 1 RLineStart)) (b, inp, caps[1 := Some []]) =
      [(b, inp, caps[1 := Some []])]"
    by (subst matcher.simps(10)) (simp only: fst_conv snd_conv once, simp add: star_order_def)
  then show ?thesis
    by (simp only: matcher.simps(9) fst_conv snd_conv once) simp
qed

lemma line_start_elsewhere:
  assumes "b = c # b'" and "\<not> isLineTerminator c"
  shows "matcher f (RPlus (RGroup 1 RLineStart)) (b, inp, caps) = []"
  using assms by simp

lemma comment_expression_elsewhere:
  assumes "b = c # b'" and "\<not> isLineTerminator c"
  shows "matcher f (comment_expression j ts) (b, inp, caps) = []"
  using line_start_elsewhere [OF assms]
  by (simp only: comment_expression_def matcher.simps(6)) simp

lemma star_blank_none:
  assumes "inp = [] \<or> hd inp \<noteq> CHR '' '' \<and> hd inp \<noteq> CHR 0x09"
  shows "matcher f (RStar True blank_class) (b, inp, caps) = [(b, inp, caps)]"
proof -
  have "matcher f blank_class (b, inp, caps) = []"
    using assms by (cases inp) (simp_all add: blank_class_step)
  moreover have "group_indices blank_class = []" by (simp add: blank_class_def)
  ultimately show ?thesis
    by (subst matcher.simps(10)) (simp add: star_order_def)
qed

lemma star_blank_one:
  assumes "c = CHR '' '' \<or> c = CHR 0x09"
    and "s = [] \<or> hd s \<noteq> CHR '' '' \<and> hd s \<noteq> CHR 0x09"
  shows "matcher f (RStar True blank_class) (b, c # s, caps) = [(c # b, s, caps), (b, c # s, caps)]"
proof -
  have "matcher f blank_class (b, c # s, caps) = [(c # b, s, caps)]"
    using assms(1) by (simp add: blank_class_step)
  moreover have "group_indices blank_class = []" by (simp add: blank_class_def)
  moreover note star_blank_none [OF assms(2), of f "c # b" caps]
  ultimately show ?thesis
    by (subst matcher.simps(10)) (simp add: star_order_def)
qed

lemma separator_group_none:
  assumes "inp = [] \<or> hd inp \<noteq> CHR '' '' \<and> hd inp \<noteq> CHR '':''"
  shows "matcher f (RGroup 4 (RAlt (RStar True (RClass False [ClassChar CHR '' '']))
                                      (RClass False [ClassChar CHR '':'']))) (b, inp, caps) =
         [(b, inp, caps[4 := Some []])]"
proof -
  have "matcher f (RClass False [ClassChar CHR '' '']) (b, inp, caps) = []"
    using assms by (cases inp) (simp_all add: canonicalize_eq_nonletter)
  then have "matcher f (RStar True (RClass False [ClassChar CHR '' ''])) (b, inp, caps) = [(b, inp, caps)]"
    by (subst matcher.simps(10)) (simp add: star_order_def)
  moreover have "matcher f (RClass False [ClassChar CHR '':'']) (b, inp, caps) = []"
    using assms by (cases inp) (simp_all add: canonicalize_eq_nonletter)
  ultimately show ?thesis
    by (simp only: matcher.simps(7,8)) simp
qed

lemma separator_none:
  assumes "inp = [] \<or> hd inp \<noteq> CHR '' '' \<and> hd inp \<noteq> CHR '':''"
  shows "matcher f (RPlus (RGroup 4 (RAlt (RStar True (RClass False [ClassChar CHR '' '']))
                                      (RClass False [ClassChar CHR '':''])))) (b, inp, caps) =
         [(b, inp, caps[4 := Some []])]"
proof -
  note once = separator_group_none [OF assms, of f b]
  have "matcher f (RStar True (RGroup 4 (RAlt (RStar True (RClass False [ClassChar CHR '' '']))
                                      (RClass False [ClassChar CHR '':''])))) (b, inp, caps[4 := Some []]) =
      [(b, inp, caps[4 := Some []])]"
    by (subst matcher.simps(10)) (simp only: fst_conv snd_conv once, simp add: star_order_def)
  then show ?thesis
    by (simp only: matcher.simps(9) fst_conv snd_conv once) simp
qed

lemma separator_blank:
  assumes "c \<noteq> CHR '' ''" and "c \<noteq> CHR '':''"
  shows "\<exists>ys. matcher f (RPlus (RGroup 4 (RAlt (RStar True (RClass False [ClassChar CHR '' '']))
                                      (RClass False [ClassChar CHR '':''])))) (b, CHR '' '' # c # s, caps) =
         (CHR '' '' # b, c # s, caps[4 := Some '' '']) # ys"
proof -
  let ?G = "RGroup 4 (RAlt (RStar True (RClass False [ClassChar CHR '' '']))
                                      (RClass False [ClassChar CHR '':'']))"
  have run: "matcher f (RStar True (RClass False [ClassChar CHR '' ''])) (b, CHR '' '' # c # s, caps') =
      [(CHR '' '' # b, c # s, caps'), (b, CHR '' '' # c # s, caps')]" for caps'
  proof -
    have "matcher f (RClass False [ClassChar CHR '' '']) (CHR '' '' # b, c # s, caps') = []"
      using assms by (simp add: canonicalize_eq_nonletter)
    then have "matcher f (RStar True (RClass False [ClassChar CHR '' ''])) (CHR '' '' # b, c # s, caps') =
        [(CHR '' '' # b, c # s, caps')]"
      by (subst matcher.simps(10)) (simp add: star_order_def)
    then show ?thesis
      by (subst matcher.simps(10)) (simp add: star_order_def canonicalize_eq_nonletter)
  qed
  have once: "matcher f ?G (b, CHR '' '' # c # s, caps') =
      [(CHR '' '' # b, c # s, caps'[4 := Some '' '']), (b, CHR '' '' # c # s, caps'[4 := Some []])]"
    for caps'
    by (simp only: matcher.simps(7,8) run) (simp add: canonicalize_eq_nonletter)
  have stay: "matcher f (RStar True ?G) (CHR '' '' # b, c # s, caps[4 := Some '' '']) =
      [(CHR '' '' # b, c # s, caps[4 := Some '' ''])]"
    using separator_group_none [of "c # s" f "CHR '' '' # b"] assms
    by (subst matcher.simps(10)) (simp add: star_order_def del: matcher.simps)
  show ?thesis
    by (simp only: matcher.simps(9) fst_conv snd_conv once) (simp add: stay del: matcher.simps)
qed

lemma tail_fails:
  assumes "inp = [] \<or> hd inp = CHR ''*'' \<or> hd inp = CHR ''/''"
  shows "matcher f (RGroup 5 (RSeq (RClass True [ClassChar CHR ''*'', ClassChar CHR ''/''])
                          (RStar True (RClass True [ClassChar CHR 0x0D, ClassChar CHR 0x0A]))))
           (b, inp, caps) = []"
  using assms by (cases inp) (auto simp: not_star_slash_step simp del: matcher.simps(4))

lemma tail_head:
  assumes "c \<noteq> CHR ''*''" and "c \<noteq> CHR ''/''"
    and "\<forall>d \<in> set s. \<not> isLineTerminator d" and "E = [] \<or> isLineTerminator (hd E)"
  shows "\<exists>ys. matcher f (RGroup 5 (RSeq (RClass True [ClassChar CHR ''*'', ClassChar CHR ''/''])
                          (RStar True (RClass True [ClassChar CHR 0x0D, ClassChar CHR 0x0A]))))
           (b, c # s @ E, caps) =
         (rev (c # s) @ b, E, caps[5 := Some (c # s)]) # ys"
proof -
  have "\<exists>ys. matcher f (RStar True (RClass True [ClassChar CHR 0x0D, ClassChar CHR 0x0A]))
      (c # b, s @ E, caps) = (rev s @ c # b, E, caps) # ys"
    by (rule star_run_head [where ok = "\<lambda>d. \<not> isLineTerminator d"])
      (use assms in \<open>simp_all add: not_newline_step del: matcher.simps(4)\<close>)
  then obtain ys where "matcher f (RStar True (RClass True [ClassChar CHR 0x0D, ClassChar CHR 0x0A]))
      (c # b, s @ E, caps) = (rev s @ c # b, E, caps) # ys" by blast
  then show ?thesis
    using assms(1,2)
    by (simp only: matcher.simps(6,8) not_star_slash_step) simp
qed


section \<open>Tags in the line pattern\<close>

lemma tags_at_tag:
  assumes fold: "ignoreCase f" and esc: "escaped_tags ts"
    and t: "unambiguous_tag ts t" and w: "toLowerCase w = toLowerCase (tag t)"
  shows "matcher f (tag_alternatives ts) (b, w @ CHR '' '' # r, caps) = [(rev w @ b, CHR '' '' # r, caps)]"
proof -
  from t have ts: "ts \<noteq> []" by (auto simp: unambiguous_tag_def)
  have cand: "matcher f (literal (tag u)) (b, w @ CHR '' '' # r, caps) =
      (if toLowerCase (tag u) = toLowerCase (tag t) then [(rev w @ b, CHR '' '' # r, caps)] else [])"
    if "u \<in> set ts" for u
  proof (cases "toLowerCase (tag u) = toLowerCase (tag t)")
    case True
    with w have "length (tag u) = length w" by (metis length_toLowerCase)
    with True tag_candidate [OF fold t w that, of r] show ?thesis
      by (simp add: matcher_literal)
  next
    case False
    with tag_candidate [OF fold t w that, of r] show ?thesis
      by (simp add: matcher_literal)
  qed
  show ?thesis
    using esc ts t cand
    by (simp add: matcher_tag_alternatives escaped_tags_def unambiguous_tag_def
        concat_map_single [where key = "\<lambda>u. toLowerCase (tag u)" and t = t])
qed

lemma tags_at_blank:
  assumes esc: "escaped_tags ts" and t: "unambiguous_tag ts t" and nonempty: "tag t \<noteq> []"
  shows "matcher f (tag_alternatives ts) (b, CHR '' '' # r, caps) = []"
proof -
  from t have ts: "ts \<noteq> []" by (auto simp: unambiguous_tag_def)
  show ?thesis
    using esc ts tag_not_at_blank [OF t nonempty]
    by (simp add: matcher_tag_alternatives escaped_tags_def)
qed

lemma tag_members:
  assumes fold: "ignoreCase f" and esc: "escaped_tags ts"
    and t: "unambiguous_tag ts t" and nonempty: "tag t \<noteq> []"
    and y: "y \<in> set (matcher f (tag_alternatives ts) (b, inp, caps))"
  shows "\<exists>u \<in> set ts. 0 < length (tag u) \<and> length (tag u) \<le> length inp \<and>
           toLowerCase (take (length (tag u)) inp) = toLowerCase (tag u) \<and>
           y = (rev (take (length (tag u)) inp) @ b, drop (length (tag u)) inp, caps)"
proof -
  from t have ts: "ts \<noteq> []" by (auto simp: unambiguous_tag_def)
  from y esc ts obtain u where u: "u \<in> set ts" and yu: "y \<in> set (matcher f (literal (tag u)) (b, inp, caps))"
    by (auto simp: matcher_tag_alternatives escaped_tags_def)
  from yu have len: "length (tag u) \<le> length inp"
    and eq: "map (canonicalize f) (take (length (tag u)) inp) = map (canonicalize f) (tag u)"
    and st: "y = (rev (take (length (tag u)) inp) @ b, drop (length (tag u)) inp, caps)"
    by (auto simp: matcher_literal split: if_splits)
  have "tag u \<noteq> []"
  proof
    assume "tag u = []"
    with nonempty have "strict_prefix_ci (tag u) (tag t)"
      by (simp add: strict_prefix_ci_def toLowerCase_def)
    with t u show False by (auto simp: unambiguous_tag_def)
  qed
  moreover from eq have "toLowerCase (take (length (tag u)) inp) = toLowerCase (tag u)"
    by (simp add: canonicalize_ignoreCase [OF fold] toLowerCase_eq_iff)
  ultimately show ?thesis using u len st by auto
qed

lemma tags_then_fail:
  assumes fold: "ignoreCase f" and esc: "escaped_tags ts"
    and t: "unambiguous_tag ts t" and nonempty: "tag t \<noteq> []"
    and dead: "\<And>u. u \<in> set ts \<Longrightarrow> 0 < length (tag u) \<Longrightarrow> length (tag u) \<le> length inp \<Longrightarrow>
        toLowerCase (take (length (tag u)) inp) = toLowerCase (tag u) \<Longrightarrow>
        drop (length (tag u)) inp = [] \<or> hd (drop (length (tag u)) inp) = CHR ''*'' \<or>
        hd (drop (length (tag u)) inp) = CHR ''/''"
  shows "matcher f (RSeq (RGroup 3 (tag_alternatives ts))
           (RSeq (RPlus (RGroup 4 (RAlt (RStar True (RClass False [ClassChar CHR '' '']))
                                      (RClass False [ClassChar CHR '':'']))))
             (RGroup 5 (RSeq (RClass True [ClassChar CHR ''*'', ClassChar CHR ''/''])
                          (RStar True (RClass True [ClassChar CHR 0x0D, ClassChar CHR 0x0A]))))))
           (b, inp, caps) = []"
proof -
  let ?P4 = "RPlus (RGroup 4 (RAlt (RStar True (RClass False [ClassChar CHR '' '']))
                                      (RClass False [ClassChar CHR '':''])))"
  let ?G5 = "RGroup 5 (RSeq (RClass True [ClassChar CHR ''*'', ClassChar CHR ''/''])
                          (RStar True (RClass True [ClassChar CHR 0x0D, ClassChar CHR 0x0A])))"
  have "matcher f (RSeq ?P4 ?G5) y = []"
    if "y \<in> set (matcher f (RGroup 3 (tag_alternatives ts)) (b, inp, caps))" for y
  proof -
    from that obtain z where z: "z \<in> set (matcher f (tag_alternatives ts) (b, inp, caps))"
      and y: "y = set_capture 3 (b, inp, caps) z"
      by (auto simp only: matcher.simps(8) set_map)
    from tag_members [OF fold esc t nonempty z] obtain u where
      u: "u \<in> set ts" "0 < length (tag u)" "length (tag u) \<le> length inp"
        "toLowerCase (take (length (tag u)) inp) = toLowerCase (tag u)" and
      zs: "z = (rev (take (length (tag u)) inp) @ b, drop (length (tag u)) inp, caps)"
      by blast
    let ?rest = "drop (length (tag u)) inp"
    from dead [OF u] have stop: "?rest = [] \<or> hd ?rest = CHR ''*'' \<or> hd ?rest = CHR ''/''" .
    then have "?rest = [] \<or> hd ?rest \<noteq> CHR '' '' \<and> hd ?rest \<noteq> CHR '':''" by auto
    from separator_none [OF this, of f] tail_fails [OF stop, of f]
    show ?thesis unfolding y zs
      by (simp only: matcher.simps(6) set_capture.simps) simp
  qed
  then have "\<forall>y \<in> set (matcher f (RGroup 3 (tag_alternatives ts)) (b, inp, caps)).
      matcher f (RSeq ?P4 ?G5) y = []" by blast
  then have "concat (map (matcher f (RSeq ?P4 ?G5))
      (matcher f (RGroup 3 (tag_alternatives ts)) (b, inp, caps))) = []"
    by (rule concat_map_none)
  then show ?thesis by (simp only: matcher.simps(6))
qed

lemma toLowerCase_eq_nonletters:
  assumes "\<forall>c \<in> set v. \<not> is_letter c" and "toLowerCase u = toLowerCase v"
  shows "u = v"
proof -
  from assms(2) have "map toUpperCase_char u = map toUpperCase_char v"
    by (simp add: toLowerCase_eq_iff)
  with assms(1) show ?thesis
  proof (induction u arbitrary: v)
    case Nil
    then show ?case by simp
  next
    case (Cons a u)
    then show ?case by (cases v) (auto simp: toUpperCase_char_eq_nonletter)
  qed
qed


section \<open>The prefix group of the line pattern\<close>

lemma prefix_group_doc:
  assumes "c \<noteq> CHR '' ''" and "c \<noteq> CHR 0x09"
  shows "matcher f (RGroup 2 (RSeq (RStar True blank_class)
             (RSeq (RLit CHR ''*'') (RStar True blank_class))))
           (b, CHR '' '' # CHR ''*'' # CHR '' '' # c # s, caps) =
         [(CHR '' '' # CHR ''*'' # CHR '' '' # b, c # s, caps[2 := Some '' * '']),
          (CHR ''*'' # CHR '' '' # b, CHR '' '' # c # s, caps[2 := Some '' *''])]"
proof -
  have first: "matcher f (RStar True blank_class) (b, CHR '' '' # CHR ''*'' # CHR '' '' # c # s, caps) =
      [(CHR '' '' # b, CHR ''*'' # CHR '' '' # c # s, caps),
       (b, CHR '' '' # CHR ''*'' # CHR '' '' # c # s, caps)]"
    by (rule star_blank_one) simp_all
  have second: "matcher f (RStar True blank_class) (CHR ''*'' # CHR '' '' # b, CHR '' '' # c # s, caps) =
      [(CHR '' '' # CHR ''*'' # CHR '' '' # b, c # s, caps),
       (CHR ''*'' # CHR '' '' # b, CHR '' '' # c # s, caps)]"
    by (rule star_blank_one) (use assms in simp_all)
  show ?thesis
    by (simp only: matcher.simps(6,8) first) (simp add: second canonicalize_eq_nonletter)
qed

lemma prefix_group_doc_last:
  assumes "c \<noteq> CHR '' ''" and "c \<noteq> CHR 0x09"
  shows "matcher f (RGroup 2 (RSeq (RStar True blank_class)
             (RSeq (RLit CHR ''*'') (RStar True blank_class))))
           (b, CHR '' '' # CHR ''*'' # c # s, caps) =
         [(CHR ''*'' # CHR '' '' # b, c # s, caps[2 := Some '' *''])]"
proof -
  have first: "matcher f (RStar True blank_class) (b, CHR '' '' # CHR ''*'' # c # s, caps) =
      [(CHR '' '' # b, CHR ''*'' # c # s, caps), (b, CHR '' '' # CHR ''*'' # c # s, caps)]"
    by (rule star_blank_one) simp_all
  have second: "matcher f (RStar True blank_class) (CHR ''*'' # CHR '' '' # b, c # s, caps) =
      [(CHR ''*'' # CHR '' '' # b, c # s, caps)]"
    by (rule star_blank_none) (use assms in simp_all)
  show ?thesis
    by (simp only: matcher.simps(6,8) first) (simp add: second canonicalize_eq_nonletter)
qed

lemma prefix_group_doc_none:
  assumes "c \<noteq> CHR '' ''" and "c \<noteq> CHR 0x09" and "c \<noteq> CHR ''*''"
  shows "matcher f (RGroup 2 (RSeq (RStar True blank_class)
             (RSeq (RLit CHR ''*'') (RStar True blank_class))))
           (b, c # s, caps) = []"
proof -
  have first: "matcher f (RStar True blank_class) (b, c # s, caps) = [(b, c # s, caps)]"
    by (rule star_blank_none) (use assms in simp_all)
  show ?thesis
    using assms(3)
    by (simp only: matcher.simps(6,8) first) (simp add: canonicalize_eq_nonletter)
qed

lemma prefix_group_plain:
  assumes "c \<noteq> CHR '' ''" and "c \<noteq> CHR 0x09"
  shows "matcher f (RGroup 2 (RSeq (RStar True blank_class) (RStar True blank_class)))
           (b, CHR '' '' # c # s, caps) =
         [(CHR '' '' # b, c # s, caps[2 := Some '' '']),
          (CHR '' '' # b, c # s, caps[2 := Some '' '']),
          (b, CHR '' '' # c # s, caps[2 := Some []])]"
proof -
  have first: "matcher f (RStar True blank_class) (b, CHR '' '' # c # s, caps) =
      [(CHR '' '' # b, c # s, caps), (b, CHR '' '' # c # s, caps)]"
    by (rule star_blank_one) (use assms in simp_all)
  have second: "matcher f (RStar True blank_class) (CHR '' '' # b, c # s, caps) =
      [(CHR '' '' # b, c # s, caps)]"
    by (rule star_blank_none) (use assms in simp_all)
  show ?thesis
    by (simp only: matcher.simps(6,8) first) (simp add: first second)
qed

lemma prefix_group_plain_none:
  assumes "c \<noteq> CHR '' ''" and "c \<noteq> CHR 0x09"
  shows "matcher f (RGroup 2 (RSeq (RStar True blank_class) (RStar True blank_class)))
           (b, c # s, caps) = [(b, c # s, caps[2 := Some []])]"
proof -
  have first: "matcher f (RStar True blank_class) (b, c # s, caps) = [(b, c # s, caps)]"
    by (rule star_blank_none) (use assms in simp_all)
  show ?thesis
    by (simp only: matcher.simps(6,8) first) (simp add: first)
qed


section \<open>The line pattern on the tagged line\<close>

lemma comment_expression_at_line:
  assumes fold: "ignoreCase f" and multi: "multiline f"
    and start: "b = [] \<or> isLineTerminator (hd b)"
    and esc: "escaped_tags ts" and t: "unambiguous_tag ts t" and nonempty: "tag t \<noteq> []"
    and w: "toLowerCase w = toLowerCase (tag t)"
    and msg: "msg = c # cs" "c \<noteq> CHR '' ''" "c \<noteq> CHR '':''" "c \<noteq> CHR ''*''" "c \<noteq> CHR ''/''"
      "\<forall>d \<in> set msg. \<not> isLineTerminator d"
    and E: "E = [] \<or> isLineTerminator (hd E)"
    and prefix: "prefix = (if j then '' * '' else '' '')"
  shows "\<exists>ys. matcher f (comment_expression j ts)
           (b, prefix @ w @ CHR '' '' # msg @ CHR '' '' # E, [None, None, None, None, None, None]) =
         (rev (prefix @ w @ CHR '' '' # msg @ '' '') @ b, E,
          [None, Some [], Some prefix, Some w, Some '' '', Some (msg @ '' '')]) # ys"
proof -
  let ?P1 = "RPlus (RGroup 1 RLineStart)"
  let ?G2 = "RGroup 2
                (if j
                 then RSeq (RStar True blank_class) (RSeq (RLit CHR ''*'') (RStar True blank_class))
                 else RSeq (RStar True blank_class) (RStar True blank_class))"
  let ?G3 = "RGroup 3 (tag_alternatives ts)"
  let ?P4 = "RPlus (RGroup 4 (RAlt (RStar True (RClass False [ClassChar CHR '' '']))
                                      (RClass False [ClassChar CHR '':''])))"
  let ?G5 = "RGroup 5 (RSeq (RClass True [ClassChar CHR ''*'', ClassChar CHR ''/''])
                          (RStar True (RClass True [ClassChar CHR 0x0D, ClassChar CHR 0x0A])))"
  let ?I3 = "CHR '' '' # msg @ CHR '' '' # E"
  let ?I2 = "w @ ?I3"
  let ?x0 = "(b, prefix @ ?I2, [None, None, None, None, None, None])"
  let ?x1 = "(b, prefix @ ?I2, [None, Some [], None, None, None, None])"
  let ?ya = "(rev prefix @ b, ?I2, [None, Some [], Some prefix, None, None, None])"
  let ?y3 = "(rev w @ rev prefix @ b, ?I3, [None, Some [], Some prefix, Some w, None, None])"
  let ?z1 = "(CHR '' '' # rev w @ rev prefix @ b, msg @ CHR '' '' # E,
      [None, Some [], Some prefix, Some w, Some '' '', None])"
  let ?final = "(rev (prefix @ w @ CHR '' '' # msg @ '' '') @ b, E,
          [None, Some [], Some prefix, Some w, Some '' '', Some (msg @ '' '')])"
  from w nonempty have "w \<noteq> []"
    by (metis length_0_conv length_toLowerCase)
  then obtain w0 ws where w_split: "w = w0 # ws" by (cases w) auto
  have "CHR '' '' \<notin> set w" "CHR 0x09 \<notin> set w"
    using t nonletter_member [OF w] by (auto simp: unambiguous_tag_def)
  with w_split have w0: "w0 \<noteq> CHR '' ''" "w0 \<noteq> CHR 0x09" by auto
  have P1: "matcher f ?P1 ?x0 = [?x1]"
    by (simp only: line_start_here [OF multi start]) simp
  have G3: "matcher f ?G3 ?ya = [?y3]"
    by (simp only: matcher.simps(8) tags_at_tag [OF fold esc t w]) simp
  from separator_blank [OF msg(2,3), of f "rev w @ rev prefix @ b" "cs @ CHR '' '' # E"
      "[None, Some [], Some prefix, Some w, None, None]"]
  obtain zs where P4: "matcher f ?P4 ?y3 = ?z1 # zs"
    by (auto simp del: matcher.simps simp: msg(1))
  have run: "\<forall>d \<in> set (cs @ '' ''). \<not> isLineTerminator d"
    using msg(1,6) by (auto simp: isLineTerminator_def)
  from tail_head [OF msg(4,5) run E, of f "CHR '' '' # rev w @ rev prefix @ b"
      "[None, Some [], Some prefix, Some w, Some '' '', None]"]
  obtain ys5 where G5: "matcher f ?G5 ?z1 = ?final # ys5"
    by (auto simp del: matcher.simps simp: msg(1))
  have R3: "matcher f (RSeq ?P4 ?G5) ?y3 = ?final # (ys5 @ concat (map (matcher f ?G5) zs))"
    by (simp only: matcher.simps(6) [of f ?P4] P4) (simp add: G5 del: matcher.simps)
  have T3: "matcher f (RSeq ?G3 (RSeq ?P4 ?G5)) ?ya =
      ?final # (ys5 @ concat (map (matcher f ?G5) zs))"
    by (simp only: matcher.simps(6) [of f ?G3] G3) (simp add: R3 del: matcher.simps)
  have "\<exists>ys. matcher f (RSeq ?G2 (RSeq ?G3 (RSeq ?P4 ?G5))) ?x1 = ?final # ys"
  proof (cases j)
    case True
    then have p: "prefix = '' * ''" by (simp add: prefix)
    have "matcher f ?G2 ?x1 =
        [?ya, (CHR ''*'' # CHR '' '' # b, CHR '' '' # ?I2, [None, Some [], Some '' *'', None, None, None])]"
      unfolding p w_split using True prefix_group_doc [OF w0, of f b]
      by (simp del: matcher.simps)
    then show ?thesis
      using T3 by (simp only: matcher.simps(6) [of f ?G2]) (simp del: matcher.simps)
  next
    case False
    then have p: "prefix = '' ''" by (simp add: prefix)
    have "matcher f ?G2 ?x1 =
        [?ya, ?ya, (b, CHR '' '' # ?I2, [None, Some [], Some [], None, None, None])]"
      unfolding p w_split using False prefix_group_plain [OF w0, of f b]
      by (simp del: matcher.simps)
    then show ?thesis
      using T3 by (simp only: matcher.simps(6) [of f ?G2]) (simp del: matcher.simps)
  qed
  then obtain ys where "matcher f (RSeq ?G2 (RSeq ?G3 (RSeq ?P4 ?G5))) ?x1 = ?final # ys" by blast
  moreover have "comment_expression j ts = RSeq ?P1 (RSeq ?G2 (RSeq ?G3 (RSeq ?P4 ?G5)))"
    by (simp add: comment_expression_def)
  ultimately show ?thesis
    using P1 by (simp only: matcher.simps(6) [of f ?P1]) (simp del: matcher.simps)
qed


section \<open>The tag that gets a range\<close>

lemma append_range_Cons: "append_range (Suc k) r (t # ts) = t # append_range k r ts"
  by (simp add: append_range_def)

lemma append_range_0: "append_range 0 r (t # ts) = t\<lparr>ranges := ranges t @ [r]\<rparr> # ts"
  by (simp add: append_range_def)

lemma push_range_first:
  "push_range s r ts = (case first_tag_index s ts of None \<Rightarrow> ts | Some k \<Rightarrow> append_range k r ts)"
  by (induction ts) (auto simp: append_range_0 append_range_Cons split: option.splits)

lemma first_tag_index_Some:
  "first_tag_index s ts = Some k \<Longrightarrow>
     k < length ts \<and> toLowerCase (tag (ts ! k)) = toLowerCase s \<and>
     (\<forall>i < k. toLowerCase (tag (ts ! i)) \<noteq> toLowerCase s)"
proof (induction ts arbitrary: k)
  case Nil
  then show ?case by simp
next
  case (Cons t ts)
  show ?case
  proof (cases "toLowerCase (tag t) = toLowerCase s")
    case True
    with Cons.prems show ?thesis by simp
  next
    case False
    with Cons.prems obtain k' where k': "first_tag_index s ts = Some k'" "k = Suc k'"
      by auto
    from Cons.IH [OF k'(1)] False k'(2) show ?thesis
      by (auto simp: nth_Cons split: nat.splits)
  qed
qed


lemma first_tag_index_member:
  assumes "u \<in> set ts" and "toLowerCase (tag u) = toLowerCase s"
  shows "\<exists>k. first_tag_index s ts = Some k"
  using assms by (induction ts) auto

section \<open>The single-line pass as a fold over the matches\<close>

lemma single_line_match_record:
  assumes "group m 3 = Some s" and "index m \<le> length doc"
  shows "single_line_match doc m p =
    Inr (if ignoreFirstLine p \<and> index m = 0 then p else p\<lparr>tags := record_match doc (tags p) m\<rparr>)"
proof (cases "index m = 0")
  case True
  then show ?thesis
    using assms(1)
    by (simp add: single_line_match_def Let_def positionAt_0 attribute_def record_match_def
        push_range_first range_between_def split: option.splits)
next
  case False
  with assms(2) have
    "line (positionAt doc (index m)) \<noteq> 0 \<or> character (positionAt doc (index m)) \<noteq> 0"
    by (intro positionAt_origin) simp_all
  with False show ?thesis
    using assms(1)
    by (auto simp: single_line_match_def Let_def attribute_def record_match_def
        push_range_first range_between_def split: option.splits)
qed

lemma single_line_loop_matches:
  assumes progress: "0 < min_length re"
    and defined: "\<And>i m. regexp_exec single_line_flags re doc i = Some m \<Longrightarrow> \<exists>s. group m 3 = Some s"
  shows "single_line_loop re doc i p =
    Some (Inr (p\<lparr>tags := foldl (record_match doc) (tags p)
      (filter (\<lambda>m. \<not> (ignoreFirstLine p \<and> index m = 0)) (matches_from single_line_flags re doc i))\<rparr>))"
proof (induction "Suc (length doc) - i" arbitrary: i p rule: less_induct)
  case less
  show ?case
  proof (cases "regexp_exec single_line_flags re doc i")
    case None
    then show ?thesis
      by (subst single_line_loop.simps) (simp add: matches_from.simps [of _ _ _ i])
  next
    case (Some m)
    from defined [OF Some] obtain s where s: "group m 3 = Some s" by blast
    from regexp_exec_span [OF Some] progress have span:
      "i < index m + length (matched m)" "index m + length (matched m) \<le> length doc"
      by simp_all
    then have "index m \<le> length doc" by simp
    note step = single_line_match_record [OF s this, of p]
    let ?p1 = "if ignoreFirstLine p \<and> index m = 0 then p else p\<lparr>tags := record_match doc (tags p) m\<rparr>"
    have flag: "ignoreFirstLine ?p1 = ignoreFirstLine p" by simp
    from span have "Suc (length doc) - (index m + length (matched m)) < Suc (length doc) - i"
      by simp
    note ih = less.hyps [OF this, of ?p1]
    have list: "matches_from single_line_flags re doc i =
        m # matches_from single_line_flags re doc (index m + length (matched m))"
      using Some span by (simp add: matches_from.simps [of _ _ _ i])
    have "single_line_loop re doc i p =
        single_line_loop re doc (index m + length (matched m)) ?p1"
      using Some step by (subst single_line_loop.simps) simp
    also note ih
    finally show ?thesis
      unfolding list flag by (cases "ignoreFirstLine p \<and> index m = 0") auto
  qed
qed

section \<open>What the third group holds\<close>

lemma matcher_star_group_property:
  assumes step: "\<And>x z. z \<in> set (matcher f (RGroup k r) x) \<Longrightarrow> k < length (snd (snd x)) \<Longrightarrow>
      Q (snd (snd z) ! k)"
  shows "y \<in> set (matcher f (RStar g (RGroup k r)) x) \<Longrightarrow> k < length (snd (snd x)) \<Longrightarrow>
    Q (snd (snd x) ! k) \<Longrightarrow> Q (snd (snd y) ! k)"
proof (induction "length (fst (snd x))" arbitrary: x rule: less_induct)
  case less
  let ?xr = "(fst x, fst (snd x), clear_captures (group_indices (RGroup k r)) (snd (snd x)))"
  from matcher_star_cases [OF less.prems(1)] consider "y = x"
    | z where "z \<in> set (matcher f (RGroup k r) ?xr)" "length (fst (snd z)) < length (fst (snd x))"
        "y \<in> set (matcher f (RStar g (RGroup k r)) z)"
    by blast
  then show ?case
  proof cases
    case 1
    with less.prems show ?thesis by simp
  next
    case 2
    have len: "length (snd (snd z)) = length (snd (snd x))"
      using matcher_length_captures [OF 2(1)] by simp
    have "Q (snd (snd z) ! k)"
      using step [OF 2(1)] less.prems(2) by simp
    from less.hyps [OF 2(2) 2(3)] this len less.prems(2) show ?thesis by simp
  qed
qed

lemma matcher_plus_group_property:
  assumes step: "\<And>x z. z \<in> set (matcher f (RGroup k r) x) \<Longrightarrow> k < length (snd (snd x)) \<Longrightarrow>
      Q (snd (snd z) ! k)"
    and "y \<in> set (matcher f (RPlus (RGroup k r)) x)" and "k < length (snd (snd x))"
  shows "Q (snd (snd y) ! k)"
proof -
  let ?xr = "(fst x, fst (snd x), clear_captures (group_indices (RGroup k r)) (snd (snd x)))"
  from matcher_plus_cases [OF assms(2)] obtain z where z: "z \<in> set (matcher f (RGroup k r) ?xr)"
    and y: "y \<in> set (matcher f (RStar True (RGroup k r)) z)"
    by blast
  have len: "length (snd (snd z)) = length (snd (snd x))"
    using matcher_length_captures [OF z] by simp
  have "Q (snd (snd z) ! k)"
    using step [OF z] assms(3) by simp
  from matcher_star_group_property [of f k r Q, OF step y] this len assms(3) show ?thesis by simp
qed

lemma tag_group_capture:
  assumes y: "y \<in> set (matcher f (RGroup k (tag_alternatives ts)) x)"
    and fold: "ignoreCase f" and esc: "escaped_tags ts" and ts: "ts \<noteq> []"
    and k: "k < length (snd (snd x))"
  shows "\<exists>s u. snd (snd y) ! k = Some s \<and> u \<in> set ts \<and> toLowerCase (tag u) = toLowerCase s"
proof -
  obtain b inp caps where x: "x = (b, inp, caps)" by (cases x)
  from y obtain z where z: "z \<in> set (matcher f (tag_alternatives ts) x)" and yz: "y = set_capture k x z"
    by auto
  from z esc ts obtain u where u: "u \<in> set ts" and zu: "z \<in> set (matcher f (literal (tag u)) x)"
    by (auto simp: matcher_tag_alternatives escaped_tags_def)
  let ?n = "length (tag u)"
  from zu have n: "?n \<le> length inp"
    and eq: "map (canonicalize f) (take ?n inp) = map (canonicalize f) (tag u)"
    and z_eq: "z = (rev (take ?n inp) @ b, drop ?n inp, caps)"
    unfolding x by (auto simp: matcher_literal split: if_splits)
  from yz z_eq n k have "snd (snd y) ! k = Some (take ?n inp)"
    unfolding x by simp
  moreover from eq have "toLowerCase (tag u) = toLowerCase (take ?n inp)"
    by (simp add: canonicalize_ignoreCase [OF fold] toLowerCase_eq_iff)
  ultimately show ?thesis using u by blast
qed

lemma single_line_expression_tag:
  assumes m: "regexp_exec f (single_line_expression d ts) doc i = Some m"
    and fold: "ignoreCase f" and esc: "escaped_tags ts" and ts: "ts \<noteq> []"
  shows "\<exists>s k. group m 3 = Some s \<and> first_tag_index s ts = Some k"
proof -
  let ?r = "single_line_expression d ts"
  let ?D = "RGroup 4 (RStar True RDot)"
  let ?Q = "\<lambda>c. \<exists>s u. c = Some s \<and> u \<in> set ts \<and> toLowerCase (tag u) = toLowerCase s"
  from regexp_exec_Some [OF m] obtain y ys where
    y: "matcher f ?r (start_state ?r doc (index m)) = y # ys" and g: "groups m = snd (snd y)"
    by blast
  from y have "y \<in> set (matcher f ?r (start_state ?r doc (index m)))" by simp
  then obtain z1 z2 z3 where
    z1: "z1 \<in> set (matcher f (RPlus (RGroup 1 (pattern_characters (escape_slashes d))))
              (start_state ?r doc (index m)))" and
    z2: "z2 \<in> set (matcher f (RStar True (RGroup 2 (RAlt (RLit CHR '' '') (RLit CHR 0x09)))) z1)" and
    z3: "z3 \<in> set (matcher f (RPlus (RGroup 3 (tag_alternatives ts))) z2)" and
    y4: "y \<in> set (matcher f ?D z3)"
    unfolding single_line_expression_def by (blast dest!: matcher_seq_cases)
  have len: "length (snd (snd z2)) = 5"
    using matcher_length_captures [OF z1] matcher_length_captures [OF z2] by simp
  have "?Q (snd (snd z3) ! 3)"
  proof (rule matcher_plus_group_property [of f 3 "tag_alternatives ts" ?Q, OF _ z3])
    show "3 < length (snd (snd z2))" using len by simp
  next
    fix x z assume "z \<in> set (matcher f (RGroup 3 (tag_alternatives ts)) x)" "3 < length (snd (snd x))"
    from tag_group_capture [OF this(1) fold esc ts this(2)] show "?Q (snd (snd z) ! 3)" .
  qed
  moreover have "snd (snd y) ! 3 = snd (snd z3) ! 3"
    using matcher_captures_outside [OF y4, of 3] by simp
  moreover have "length (snd (snd y)) = 5"
    using matcher_length_captures [OF y4] matcher_length_captures [OF z3] len by simp
  ultimately obtain s u where "group m 3 = Some s" "u \<in> set ts" "toLowerCase (tag u) = toLowerCase s"
    using g by (auto simp: group_def)
  with first_tag_index_member [OF this(2,3)] show ?thesis by blast
qed


section \<open>The passes do not read \<open>supportedLanguage\<close>\<close>



















section \<open>The tag alternatives\<close>


lemma starts_with_ci_Nil [simp]: "starts_with_ci [] s"
  by (simp add: starts_with_ci_def toLowerCase_def)






section \<open>The single-line expression on a comment line\<close>



section \<open>The single-line pass on a document with one comment\<close>





section \<open>The same comment further down\<close>

lemma accept_char_history:
  "accept_char (fst x @ e, snd x) ok = map (\<lambda>y. (fst y @ e, snd y)) (accept_char x ok)"
  by (cases "(x, ok)" rule: accept_char.cases) simp_all

lemma set_capture_history:
  "set_capture k (fst x @ e, snd x) (fst z @ e, snd z) =
     (fst (set_capture k x z) @ e, snd (set_capture k x z))"
  by (cases x; cases z) simp

lemma star_order_history:
  "star_order g (fst x @ e, snd x) (map (\<lambda>y. (fst y @ e, snd y)) ys) =
     map (\<lambda>y. (fst y @ e, snd y)) (star_order g x ys)"
  by (simp add: star_order_def)

lemma matcher_history:
  "no_line_start r \<Longrightarrow>
   matcher f r (fst x @ e, snd x) = map (\<lambda>y. (fst y @ e, snd y)) (matcher f r x)"
proof (induction f r x rule: matcher.induct)
  case (1 f x)
  then show ?case by simp
next
  case (2 f c x)
  then show ?case by (simp add: accept_char_history)
next
  case (3 f x)
  then show ?case by (simp add: accept_char_history)
next
  case (4 f neg atoms x)
  then show ?case by (simp add: accept_char_history)
next
  case (5 f x)
  then show ?case by simp
next
  case (6 f a b x)
  from "6.prems" have a: "no_line_start a" and b: "no_line_start b" by simp_all
  have "matcher f (RSeq a b) (fst x @ e, snd x) =
      concat (map (\<lambda>y. matcher f b (fst y @ e, snd y)) (matcher f a x))"
    using "6.IH"(1) [OF a] by (simp add: comp_def)
  also have "\<dots> = concat (map (\<lambda>y. map (\<lambda>y. (fst y @ e, snd y)) (matcher f b y)) (matcher f a x))"
    using "6.IH"(2) [OF _ b] by (intro arg_cong [where f = concat] map_cong) simp_all
  finally show ?case by (simp add: map_concat comp_def)
next
  case (7 f a b x)
  then show ?case by simp
next
  case (8 f k r x)
  from "8.prems" have r: "no_line_start r" by simp
  show ?case
    using "8.IH" [OF r] by (simp add: comp_def set_capture_history)
next
  case (9 f r x)
  from "9.prems" have r: "no_line_start r" by simp
  let ?xr = "(fst x, fst (snd x), clear_captures (group_indices r) (snd (snd x)))"
  have "matcher f (RPlus r) (fst x @ e, snd x) =
      concat (map (matcher f (RStar True r)) (matcher f r (fst ?xr @ e, snd ?xr)))"
    by simp
  also have "\<dots> = concat (map (\<lambda>y. matcher f (RStar True r) (fst y @ e, snd y)) (matcher f r ?xr))"
    using "9.IH"(1) [OF r] by (simp add: comp_def)
  also have "\<dots> = concat (map (\<lambda>y. map (\<lambda>y. (fst y @ e, snd y)) (matcher f (RStar True r) y))
      (matcher f r ?xr))"
    using "9.IH"(2) r by (intro arg_cong [where f = concat] map_cong) simp_all
  finally show ?case by (simp add: map_concat comp_def)
next
  case (10 f greedy r x)
  from "10.prems" have r: "no_line_start r" by simp
  let ?xr = "(fst x, fst (snd x), clear_captures (group_indices r) (snd (snd x)))"
  let ?ext = "\<lambda>y. (fst y @ e, snd y)"
  let ?h = "\<lambda>y. if length (fst (snd y)) < length (fst (snd x)) then matcher f (RStar greedy r) y else []"
  have "matcher f (RStar greedy r) (fst x @ e, snd x) =
      star_order greedy (fst x @ e, snd x)
        (concat (map (\<lambda>y. if length (fst (snd y)) < length (fst (snd x))
                           then matcher f (RStar greedy r) y else [])
           (matcher f r (fst ?xr @ e, snd ?xr))))"
    by (subst matcher.simps(10)) simp
  also have "matcher f r (fst ?xr @ e, snd ?xr) = map ?ext (matcher f r ?xr)"
    using "10.IH"(1) [OF r] .
  also have "concat (map (\<lambda>y. if length (fst (snd y)) < length (fst (snd x))
                           then matcher f (RStar greedy r) y else [])
           (map ?ext (matcher f r ?xr))) =
      concat (map (\<lambda>y. map ?ext (?h y)) (matcher f r ?xr))"
    using "10.IH"(2) r
    by (simp only: map_map comp_def) (intro arg_cong [where f = concat] map_cong, simp_all)
  also have "\<dots> = map ?ext (concat (map ?h (matcher f r ?xr)))"
    by (simp add: map_concat comp_def)
  finally show ?case
    by (subst (2) matcher.simps(10)) (simp only: star_order_history)
qed

lemma start_state_shift:
  "start_state r (pre @ s) (length pre + i) =
     (rev (take i s) @ rev pre, drop i s, replicate (Suc (count_groups r)) None)"
  by (simp add: start_state_def)

lemma regexp_exec_shift:
  assumes "no_line_start r"
  shows "regexp_exec f r (pre @ doc) (length pre + i) =
    map_option (\<lambda>m. m\<lparr>index := length pre + index m\<rparr>) (regexp_exec f r doc i)"
  using assms
proof (induction f r doc i rule: regexp_exec.induct)
  case (1 f r doc i)
  have "start_state r (pre @ doc) (length pre + i) =
      (fst (start_state r doc i) @ rev pre, snd (start_state r doc i))"
    by (simp add: start_state_def)
  then have state: "matcher f r (start_state r (pre @ doc) (length pre + i)) =
      map (\<lambda>y. (fst y @ rev pre, snd y)) (matcher f r (start_state r doc i))"
    by (simp only: matcher_history [OF "1.prems"])
  show ?case
  proof (cases "length doc < i")
    case True
    then show ?thesis
      by (simp add: regexp_exec.simps [of f r _ i] regexp_exec.simps [of f r _ "length pre + i"])
  next
    case False
    show ?thesis
    proof (cases "matcher f r (start_state r doc i)")
      case Nil
      from "1.IH" [OF False Nil "1.prems"] Nil False state show ?thesis
        by (simp add: regexp_exec.simps [of f r _ i] regexp_exec.simps [of f r _ "length pre + i"])
    next
      case (Cons y ys)
      with False state show ?thesis
        by (simp add: regexp_exec.simps [of f r _ i] regexp_exec.simps [of f r _ "length pre + i"])
    qed
  qed
qed

lemma matches_from_shift:
  assumes "no_line_start r"
  shows "matches_from f r (pre @ doc) (length pre + i) =
    map (\<lambda>m. m\<lparr>index := length pre + index m\<rparr>) (matches_from f r doc i)"
  using assms
proof (induction f r doc i rule: matches_from.induct)
  case (1 f r doc i)
  note shift = regexp_exec_shift [OF "1.prems", of f pre doc i]
  show ?case
  proof (cases "regexp_exec f r doc i")
    case None
    with shift have "regexp_exec f r (pre @ doc) (length pre + i) = None" by simp
    with None show ?thesis
      by (simp add: matches_from.simps [of f r _ i] matches_from.simps [of f r _ "length pre + i"])
  next
    case (Some m)
    with shift have shifted: "regexp_exec f r (pre @ doc) (length pre + i) =
        Some (m\<lparr>index := length pre + index m\<rparr>)" by simp
    show ?thesis
    proof (cases "i < index m + length (matched m) \<and> index m + length (matched m) \<le> length doc")
      case True
      from "1.IH" [OF Some True "1.prems"] have
        "matches_from f r (pre @ doc) (length pre + index m + length (matched m)) =
         map (\<lambda>m. m\<lparr>index := length pre + index m\<rparr>)
           (matches_from f r doc (index m + length (matched m)))"
        by (simp add: add.assoc)
      with Some shifted True show ?thesis
        by (simp add: matches_from.simps [of f r _ i] matches_from.simps [of f r _ "length pre + i"])
    next
      case False
      with Some shifted show ?thesis
        by (auto simp: matches_from.simps [of f r _ i] matches_from.simps [of f r _ "length pre + i"])
    qed
  qed
qed

lemma matches_from_skip:
  assumes "\<forall>k < n. \<not> matches_at f r doc k" and "n \<le> length doc" and "0 < min_length r"
  shows "matches_from f r doc 0 = matches_from f r doc n"
proof -
  have "regexp_exec f r doc 0 = regexp_exec f r doc n"
    using assms(1,2) by (intro regexp_exec_skip) (simp_all add: matches_at_def)
  moreover have "0 < index m + length (matched m) \<and> n < index m + length (matched m)"
    if "regexp_exec f r doc n = Some m" for m
    using regexp_exec_span(1,3) [OF that] assms(3) by linarith
  ultimately show ?thesis
    by (simp add: matches_from.simps [of f r _ 0] matches_from.simps [of f r _ n] split: option.splits)
qed

lemma no_line_start_pattern_characters [simp]: "no_line_start (pattern_characters s)"
  by (induction s rule: pattern_characters.induct) simp_all

lemma no_line_start_alternatives:
  "\<forall>r \<in> set rs. no_line_start r \<Longrightarrow> no_line_start (alternatives rs)"
  by (induction rs rule: alternatives.induct) simp_all

lemma no_line_start_single_line_expression [simp]: "no_line_start (single_line_expression d ts)"
  by (simp add: single_line_expression_def tag_alternatives_def no_line_start_alternatives)


lemma matches_from_exec:
  "m \<in> set (matches_from f r doc i) \<Longrightarrow> \<exists>j. regexp_exec f r doc j = Some m"
proof (induction f r doc i rule: matches_from.induct)
  case (1 f r doc i)
  show ?case
  proof (cases "regexp_exec f r doc i")
    case None
    with "1.prems" show ?thesis by (simp add: matches_from.simps [of f r _ i])
  next
    case (Some m')
    show ?thesis
    proof (cases "i < index m' + length (matched m') \<and> index m' + length (matched m') \<le> length doc")
      case True
      with Some "1.prems" have "m = m' \<or> m \<in> set (matches_from f r doc (index m' + length (matched m')))"
        by (simp add: matches_from.simps [of f r _ i])
      with "1.IH" [OF Some True] Some show ?thesis by blast
    next
      case False
      with Some "1.prems" have "m = m'"
        by (auto simp: matches_from.simps [of f r _ i])
      with Some show ?thesis by blast
    qed
  qed
qed

lemma SetRegex_progress:
  assumes "l \<in> set classification_table"
  shows "0 < min_length (expression (SetRegex l p))"
proof -
  from SetRegex_supported_delimiter [OF assms, of p] have "delimiter (SetRegex l p) \<noteq> []" by auto
  from min_length_single_line_expression [OF this] show ?thesis
    by (simp add: SetRegex_expression)
qed

lemma SetRegex_fold:
  assumes "l \<in> set classification_table"
  shows "FindSingleLineComments doc (SetRegex l p) =
    Some (Inr (SetRegex l p\<lparr>tags := foldl (record_match doc) (tags (SetRegex l p))
      (filter (\<lambda>m. \<not> (ignoreFirstLine (SetRegex l p) \<and> index m = 0))
         (matches_from single_line_flags (expression (SetRegex l p)) doc 0))\<rparr>))"
  unfolding FindSingleLineComments_def
proof (rule single_line_loop_matches [OF SetRegex_progress [OF assms]])
  fix i m assume "regexp_exec single_line_flags (expression (SetRegex l p)) doc i = Some m"
  then show "\<exists>s. group m 3 = Some s"
    using single_line_expression_group [of single_line_flags _ "tags p" doc i m]
    by (simp add: SetRegex_expression)
qed

lemma SetRegex_match_tag:
  assumes esc: "escaped_tags (tags p)"
    and m: "m \<in> set (matches_from single_line_flags (expression (SetRegex l p)) doc i)"
  shows "\<exists>s. group m 3 = Some s \<and> (tags p \<noteq> [] \<longrightarrow> (\<exists>k. first_tag_index s (tags p) = Some k))"
proof -
  from matches_from_exec [OF m] obtain j where
    j: "regexp_exec single_line_flags
          (single_line_expression (delimiter (SetRegex l p)) (tags p)) doc j = Some m"
    by (auto simp: SetRegex_expression)
  have fold: "ignoreCase single_line_flags" by (simp add: single_line_flags_def)
  show ?thesis
  proof (cases "tags p = []")
    case True
    with single_line_expression_group [OF j] show ?thesis by simp
  next
    case False
    from single_line_expression_tag [OF j fold esc False] show ?thesis by blast
  qed
qed

section \<open>The range of a single-line match\<close>

text \<open>
  C10. For every language of the classification table and every document, the single-line
  pass returns, and what it returns is the parser with every match of the expression
  recorded in turn, the one at offset 0 excepted when the first line is to be skipped.
  Every match names a configured tag in its third group, and the loop body appends to the
  first tag with that literal exactly one range, which starts at \<open>match.index\<close>, where the
  delimiter starts, and ends at \<open>match.index + match[0].length\<close>; it changes nothing else.
\<close>

theorem single_line_range_spans_match:
  assumes lang: "l \<in> set classification_table"
    and p: "p = SetRegex l p0" and esc: "escaped_tags (tags p0)"
  shows "FindSingleLineComments doc p =
           Some (Inr (p\<lparr>tags := foldl (record_match doc) (tags p)
             (filter (\<lambda>m. \<not> (ignoreFirstLine p \<and> index m = 0))
                (matches_from single_line_flags (expression p) doc 0))\<rparr>)) \<and>
         (\<forall>m \<in> set (matches_from single_line_flags (expression p) doc 0).
            \<exists>s. group m 3 = Some s \<and> (tags p \<noteq> [] \<longrightarrow> (\<exists>k. first_tag_index s (tags p) = Some k))) \<and>
         (regexp_exec single_line_flags (expression p) doc i = Some m \<and>
          \<not> (ignoreFirstLine p \<and> index m = 0) \<and> group m 3 = Some s \<and>
          first_tag_index s (tags p) = Some k \<longrightarrow>
            single_line_match doc m p =
              Inr (p\<lparr>tags := (tags p)[k := (tags p ! k)\<lparr>ranges := ranges (tags p ! k) @
                     [\<lparr>range_start = positionAt doc (index m),
                       range_end = positionAt doc (index m + length (matched m))\<rparr>]\<rparr>]\<rparr>))"
proof (intro conjI ballI impI)
  show "FindSingleLineComments doc p =
      Some (Inr (p\<lparr>tags := foldl (record_match doc) (tags p)
        (filter (\<lambda>m. \<not> (ignoreFirstLine p \<and> index m = 0))
           (matches_from single_line_flags (expression p) doc 0))\<rparr>))"
    unfolding p by (rule SetRegex_fold [OF lang])
next
  fix m' assume "m' \<in> set (matches_from single_line_flags (expression p) doc 0)"
  then show "\<exists>s. group m' 3 = Some s \<and> (tags p \<noteq> [] \<longrightarrow> (\<exists>k. first_tag_index s (tags p) = Some k))"
    unfolding p using SetRegex_match_tag [OF esc, of m' l doc 0] by simp
next
  assume a: "regexp_exec single_line_flags (expression p) doc i = Some m \<and>
      \<not> (ignoreFirstLine p \<and> index m = 0) \<and> group m 3 = Some s \<and>
      first_tag_index s (tags p) = Some k"
  then have "index m \<le> length doc"
    using regexp_exec_span(2) [of single_line_flags "expression p" doc i m] by simp
  from single_line_match_record [OF _ this, of s p] a
  show "single_line_match doc m p =
      Inr (p\<lparr>tags := (tags p)[k := (tags p ! k)\<lparr>ranges := ranges (tags p ! k) @
             [\<lparr>range_start = positionAt doc (index m),
               range_end = positionAt doc (index m + length (matched m))\<rparr>]\<rparr>]\<rparr>)"
    by (simp add: record_match_def append_range_def range_between_def)
qed

theorem single_line_range_spans_match_witness:
  "''javascript'' \<in> set classification_table \<and>
   map (\<lambda>m. (index m, matched m, group m 3))
     (matches_from single_line_flags
        (expression (SetRegex ''javascript'' (new_Parser example_contributions)))
        (''x // ! hi'' @ [CHR 0x0A] @ ''// TODO later'') 0) =
     [(2, ''// ! hi'', Some ''!''), (10, ''// TODO later'', Some ''TODO'')] \<and>
   map_option (map_sum id tagged_ranges)
     (FindSingleLineComments (''x // ! hi'' @ [CHR 0x0A] @ ''// TODO later'')
        (SetRegex ''javascript'' (new_Parser example_contributions))) =
     Some (Inr [(''!'', [\<lparr>range_start = \<lparr>line = 0, character = 2\<rparr>,
                          range_end = \<lparr>line = 0, character = 9\<rparr>\<rparr>]),
                (''?'', []), (''//'', []),
                (''todo'', [\<lparr>range_start = \<lparr>line = 1, character = 0\<rparr>,
                             range_end = \<lparr>line = 1, character = 13\<rparr>\<rparr>]),
                (''*'', [])])"
proof -
  let ?p = "SetRegex ''javascript'' (new_Parser example_contributions)"
  let ?doc = "''x // ! hi'' @ [CHR 0x0A] @ ''// TODO later''"
  have lang: "''javascript'' \<in> set classification_table" by code_simp
  have ms: "map (\<lambda>m. (index m, matched m, group m 3))
      (matches_from single_line_flags (expression ?p) ?doc 0) =
      [(2, ''// ! hi'', Some ''!''), (10, ''// TODO later'', Some ''TODO'')]"
    by code_simp
  have computed: "map_option (map_sum id tagged_ranges)
      (Some (Inr (?p\<lparr>tags := foldl (record_match ?doc) (tags ?p)
        (filter (\<lambda>m. \<not> (ignoreFirstLine ?p \<and> index m = 0))
           (matches_from single_line_flags (expression ?p) ?doc 0))\<rparr>)) :: (error + Parser) option) =
      Some (Inr [(''!'', [\<lparr>range_start = \<lparr>line = 0, character = 2\<rparr>,
                          range_end = \<lparr>line = 0, character = 9\<rparr>\<rparr>]),
                (''?'', []), (''//'', []),
                (''todo'', [\<lparr>range_start = \<lparr>line = 1, character = 0\<rparr>,
                             range_end = \<lparr>line = 1, character = 13\<rparr>\<rparr>]),
                (''*'', [])])"
    by code_simp
  from single_line_range_spans_match [OF lang refl new_Parser_escaped_tags, of ?doc example_contributions,
      THEN conjunct1]
  have "map_option (map_sum id tagged_ranges) (FindSingleLineComments ?doc ?p) =
      Some (Inr [(''!'', [\<lparr>range_start = \<lparr>line = 0, character = 2\<rparr>,
                          range_end = \<lparr>line = 0, character = 9\<rparr>\<rparr>]),
                (''?'', []), (''//'', []),
                (''todo'', [\<lparr>range_start = \<lparr>line = 1, character = 0\<rparr>,
                             range_end = \<lparr>line = 1, character = 13\<rparr>\<rparr>]),
                (''*'', [])])"
    by (simp only: computed)
  with lang ms show ?thesis by (intro conjI)
qed


lemma all_below_upt: "\<forall>i \<in> set [0..<n]. P i \<Longrightarrow> \<forall>i < n. P i"
  by simp


lemma positionAt_origin_iff:
  assumes "n \<le> length doc"
  shows "(line (positionAt doc n) = 0 \<and> character (positionAt doc n) = 0) = (n = 0)"
proof (cases "n = 0")
  case True
  then show ?thesis by (simp add: positionAt_0)
next
  case False
  with positionAt_origin [of n doc] assms show ?thesis by auto
qed

lemma SetRegex_fold_below:
  assumes lang: "l \<in> set classification_table" and later: "pre \<noteq> []"
    and clear: "\<forall>i < length pre. \<not> matches_at single_line_flags (expression (SetRegex l p)) (pre @ doc) i"
  shows "FindSingleLineComments (pre @ doc) (SetRegex l p) =
    Some (Inr (SetRegex l p\<lparr>tags := foldl (record_match (pre @ doc)) (tags (SetRegex l p))
      (map (\<lambda>m. m\<lparr>index := length pre + index m\<rparr>)
         (matches_from single_line_flags (expression (SetRegex l p)) doc 0))\<rparr>))"
proof -
  let ?f = single_line_flags and ?r = "expression (SetRegex l p)"
  let ?shift = "\<lambda>m. m\<lparr>index := length pre + index m\<rparr>"
  have free: "no_line_start ?r" by (simp add: SetRegex_expression)
  have "matches_from ?f ?r (pre @ doc) 0 = matches_from ?f ?r (pre @ doc) (length pre)"
    using clear SetRegex_progress [OF lang, of p] by (intro matches_from_skip) simp_all
  also have "\<dots> = map ?shift (matches_from ?f ?r doc 0)"
    using matches_from_shift [OF free, of ?f pre doc 0] by simp
  finally have list: "matches_from ?f ?r (pre @ doc) 0 = map ?shift (matches_from ?f ?r doc 0)" .
  have "filter (\<lambda>m. \<not> (ignoreFirstLine (SetRegex l p) \<and> index m = 0))
      (map ?shift (matches_from ?f ?r doc 0)) = map ?shift (matches_from ?f ?r doc 0)"
    using later by (simp add: filter_map comp_def)
  with SetRegex_fold [OF lang, of "pre @ doc" p] list show ?thesis by simp
qed

section \<open>The first line\<close>

text \<open>
  C6. Let \<open>ignoreFirstLine\<close> be set, for a language of the classification table. In every
  document the single-line pass records every match of the expression but the one that
  begins at offset 0, if there is one; offset 0 is the only offset of the document at line 0,
  character 0. Every recorded match names a configured tag, to which its range is appended.
  When the same text comes after a non-empty prefix in which the expression does not match,
  two line feeds for example, the matches are the same ones further down, and all of them
  are recorded, the first comment included.
\<close>

theorem first_line_comment_skipped:
  assumes lang: "l \<in> set classification_table"
    and p: "p = SetRegex l p0" and esc: "escaped_tags (tags p0)"
    and flag: "ignoreFirstLine p"
  shows "FindSingleLineComments doc p =
           Some (Inr (p\<lparr>tags := foldl (record_match doc) (tags p)
             (filter (\<lambda>m. index m \<noteq> 0)
                (matches_from single_line_flags (expression p) doc 0))\<rparr>)) \<and>
         (\<forall>n \<le> length doc.
            (line (positionAt doc n) = 0 \<and> character (positionAt doc n) = 0) = (n = 0)) \<and>
         (\<forall>m \<in> set (matches_from single_line_flags (expression p) doc 0).
            \<exists>s. group m 3 = Some s \<and> (tags p \<noteq> [] \<longrightarrow> (\<exists>k. first_tag_index s (tags p) = Some k))) \<and>
         (pre \<noteq> [] \<and>
          (\<forall>i < length pre. \<not> matches_at single_line_flags (expression p) (pre @ doc) i) \<longrightarrow>
            FindSingleLineComments (pre @ doc) p =
              Some (Inr (p\<lparr>tags := foldl (record_match (pre @ doc)) (tags p)
                (map (\<lambda>m. m\<lparr>index := length pre + index m\<rparr>)
                   (matches_from single_line_flags (expression p) doc 0))\<rparr>)))"
proof (intro conjI ballI impI allI)
  show "FindSingleLineComments doc p =
      Some (Inr (p\<lparr>tags := foldl (record_match doc) (tags p)
        (filter (\<lambda>m. index m \<noteq> 0) (matches_from single_line_flags (expression p) doc 0))\<rparr>))"
    using SetRegex_fold [OF lang, of doc p0] flag unfolding p by simp
next
  fix n assume "n \<le> length doc"
  then show "(line (positionAt doc n) = 0 \<and> character (positionAt doc n) = 0) = (n = 0)"
    by (rule positionAt_origin_iff)
next
  fix m assume "m \<in> set (matches_from single_line_flags (expression p) doc 0)"
  then show "\<exists>s. group m 3 = Some s \<and> (tags p \<noteq> [] \<longrightarrow> (\<exists>k. first_tag_index s (tags p) = Some k))"
    unfolding p using SetRegex_match_tag [OF esc, of m l doc 0] by simp
next
  assume "pre \<noteq> [] \<and>
      (\<forall>i < length pre. \<not> matches_at single_line_flags (expression p) (pre @ doc) i)"
  then show "FindSingleLineComments (pre @ doc) p =
      Some (Inr (p\<lparr>tags := foldl (record_match (pre @ doc)) (tags p)
        (map (\<lambda>m. m\<lparr>index := length pre + index m\<rparr>)
           (matches_from single_line_flags (expression p) doc 0))\<rparr>))"
    unfolding p using SetRegex_fold_below [OF lang, of pre p0 doc] by simp
qed

theorem first_line_comment_skipped_witness:
  "ignoreFirstLine (SetRegex ''python'' (new_Parser example_contributions)) \<and>
   map (\<lambda>m. (index m, matched m, group m 3))
     (matches_from single_line_flags
        (expression (SetRegex ''python'' (new_Parser example_contributions)))
        (''#!/usr/bin/env python'' @ [CHR 0x0A] @ ''# ! alert'' @ [CHR 0x0A] @ ''x = 1'') 0) =
     [(0, ''#!/usr/bin/env python'', Some ''!''), (22, ''# ! alert'', Some ''!'')] \<and>
   map_option (map_sum id tagged_ranges)
     (FindSingleLineComments
        (''#!/usr/bin/env python'' @ [CHR 0x0A] @ ''# ! alert'' @ [CHR 0x0A] @ ''x = 1'')
        (SetRegex ''python'' (new_Parser example_contributions))) =
     Some (Inr [(''!'', [\<lparr>range_start = \<lparr>line = 1, character = 0\<rparr>,
                          range_end = \<lparr>line = 1, character = 9\<rparr>\<rparr>]),
                (''?'', []), (''//'', []), (''todo'', []), (''*'', [])]) \<and>
   map_option (map_sum id tagged_ranges)
     (FindSingleLineComments
        ([CHR 0x0A, CHR 0x0A] @
         ''#!/usr/bin/env python'' @ [CHR 0x0A] @ ''# ! alert'' @ [CHR 0x0A] @ ''x = 1'')
        (SetRegex ''python'' (new_Parser example_contributions))) =
     Some (Inr [(''!'', [\<lparr>range_start = \<lparr>line = 2, character = 0\<rparr>,
                          range_end = \<lparr>line = 2, character = 21\<rparr>\<rparr>,
                         \<lparr>range_start = \<lparr>line = 3, character = 0\<rparr>,
                          range_end = \<lparr>line = 3, character = 9\<rparr>\<rparr>]),
                (''?'', []), (''//'', []), (''todo'', []), (''*'', [])])"
proof -
  let ?p = "SetRegex ''python'' (new_Parser example_contributions)"
  let ?doc = "''#!/usr/bin/env python'' @ [CHR 0x0A] @ ''# ! alert'' @ [CHR 0x0A] @ ''x = 1''"
  let ?pre = "[CHR 0x0A, CHR 0x0A]"
  have lang: "''python'' \<in> set classification_table" by code_simp
  have flag: "ignoreFirstLine ?p" by code_simp
  have ms: "map (\<lambda>m. (index m, matched m, group m 3))
      (matches_from single_line_flags (expression ?p) ?doc 0) =
      [(0, ''#!/usr/bin/env python'', Some ''!''), (22, ''# ! alert'', Some ''!'')]"
    by code_simp
  have later: "?pre \<noteq> []" by simp
  have "\<forall>i \<in> set [0..<length ?pre]. \<not> matches_at single_line_flags (expression ?p) (?pre @ ?doc) i"
    by code_simp
  then have clear: "\<forall>i < length ?pre. \<not> matches_at single_line_flags (expression ?p) (?pre @ ?doc) i"
    by (rule all_below_upt)
  note skipped = first_line_comment_skipped [OF lang refl new_Parser_escaped_tags flag, of ?doc ?pre]
  have first: "map_option (map_sum id tagged_ranges)
      (Some (Inr (?p\<lparr>tags := foldl (record_match ?doc) (tags ?p)
        (filter (\<lambda>m. index m \<noteq> 0)
           (matches_from single_line_flags (expression ?p) ?doc 0))\<rparr>)) :: (error + Parser) option) =
      Some (Inr [(''!'', [\<lparr>range_start = \<lparr>line = 1, character = 0\<rparr>,
                          range_end = \<lparr>line = 1, character = 9\<rparr>\<rparr>]),
                (''?'', []), (''//'', []), (''todo'', []), (''*'', [])])"
    by code_simp
  have second: "map_option (map_sum id tagged_ranges)
      (Some (Inr (?p\<lparr>tags := foldl (record_match (?pre @ ?doc)) (tags ?p)
        (map (\<lambda>m. m\<lparr>index := length ?pre + index m\<rparr>)
           (matches_from single_line_flags (expression ?p) ?doc 0))\<rparr>)) :: (error + Parser) option) =
      Some (Inr [(''!'', [\<lparr>range_start = \<lparr>line = 2, character = 0\<rparr>,
                          range_end = \<lparr>line = 2, character = 21\<rparr>\<rparr>,
                         \<lparr>range_start = \<lparr>line = 3, character = 0\<rparr>,
                          range_end = \<lparr>line = 3, character = 9\<rparr>\<rparr>]),
                (''?'', []), (''//'', []), (''todo'', []), (''*'', [])])"
    by code_simp
  from skipped [THEN conjunct1] have a: "map_option (map_sum id tagged_ranges) (FindSingleLineComments ?doc ?p) =
      Some (Inr [(''!'', [\<lparr>range_start = \<lparr>line = 1, character = 0\<rparr>,
                          range_end = \<lparr>line = 1, character = 9\<rparr>\<rparr>]),
                (''?'', []), (''//'', []), (''todo'', []), (''*'', [])])"
    by (simp only: first)
  from skipped [THEN conjunct2, THEN conjunct2, THEN conjunct2, rule_format, OF conjI, OF later clear]
  have b: "map_option (map_sum id tagged_ranges) (FindSingleLineComments (?pre @ ?doc) ?p) =
      Some (Inr [(''!'', [\<lparr>range_start = \<lparr>line = 2, character = 0\<rparr>,
                          range_end = \<lparr>line = 2, character = 21\<rparr>\<rparr>,
                         \<lparr>range_start = \<lparr>line = 3, character = 0\<rparr>,
                          range_end = \<lparr>line = 3, character = 9\<rparr>\<rparr>]),
                (''?'', []), (''//'', []), (''todo'', []), (''*'', [])])"
    by (simp only: second)
  from flag ms a b show ?thesis by (intro conjI)
qed


section \<open>A tagged comment line\<close>





section \<open>Languages outside the classification table\<close>




end
